theory Spec2Isabelle
  imports Complex_Main "HOL-Library.Log_Nat" "HOL-Library.Word"
begin

section \<open>Python primitives used by \<open>backend/main.py\<close>\<close>

text \<open>
  The service is a single Python module. Its arithmetic mixes unbounded integers with
  IEEE-754 binary64 floats (\<open>tw / ow\<close>, \<open>ow * scale\<close>, \<open>round\<close>), so the float
  operations are modelled exactly: a finite float is the rational number it denotes, and
  every operation rounds its exact result to the nearest representable value, ties to the
  even significand.
\<close>

subsection \<open>Errors\<close>

text \<open>
  \<open>HTTPException status detail\<close> is FastAPI's exception (the handlers only ever use
  status 400). The others are the Python exceptions the arithmetic can raise; nothing
  in the module catches them outside the \<open>try\<close> blocks modelled below, so they end the
  request.
\<close>

datatype error = HTTPException nat string | ZeroDivisionError | OverflowError | ValueError

subsection \<open>Binary64 rounding\<close>

text \<open>\<open>ilog2 x\<close> is the integer \<open>e\<close> with \<open>2^e \<le> x < 2^(e+1)\<close>, for positive \<open>x\<close>.\<close>

definition ilog2 :: "rat \<Rightarrow> int" where
  "ilog2 x =
     (if 1 \<le> x then int (floorlog 2 (nat \<lfloor>x\<rfloor>)) - 1
      else - int (floorlog 2 (nat (\<lceil>1 / x\<rceil> - 1))))"

text \<open>
  Python's built-in \<open>round\<close> on a finite float: the nearest integer, an exact half going
  to the even neighbour.
\<close>

definition py_round :: "rat \<Rightarrow> int" where
  "py_round x =
     (let f = \<lfloor>x\<rfloor>; d = x - of_int f
      in if d < 1 / 2 then f
         else if 1 / 2 < d then f + 1
         else if even f then f else f + 1)"

text \<open>
  \<open>fl x\<close> is the binary64 value nearest to \<open>x\<close>: 53 significant bits, the exponent of
  the last place never below \<open>-1074\<close> (subnormals), ties to the even significand. It is
  the value the hardware returns whenever \<open>\<bar>x\<bar>\<close> is below the overflow threshold
  \<open>dbl_overflow\<close>.
\<close>

definition fl :: "rat \<Rightarrow> rat" where
  "fl x =
     (if x = 0 then 0
      else let e = max (ilog2 \<bar>x\<bar>) (- 1022) - 52
           in of_int (py_round (x / 2 powi e)) * 2 powi e)"

definition dbl_overflow :: rat where
  "dbl_overflow = 2 ^ 1024 - 2 ^ 970"

text \<open>
  A float value: finite, an infinity (of either sign) or a NaN. Int-by-int division and
  int-to-float conversion raise instead of returning an infinity, so their results are
  plain rationals.
\<close>

datatype pyfloat = Fin rat | Inf | NaN

text \<open>\<open>float(n)\<close>, the conversion Python applies to the int operand of a mixed operation.\<close>

definition float_of_int :: "int \<Rightarrow> error + rat" where
  "float_of_int n =
     (if dbl_overflow \<le> \<bar>of_int n\<bar> then Inl OverflowError else Inr (fl (of_int n)))"

text \<open>\<open>a / b\<close> on two ints: the exact quotient, rounded once.\<close>

definition int_truediv :: "int \<Rightarrow> int \<Rightarrow> error + rat" where
  "int_truediv a b =
     (if b = 0 then Inl ZeroDivisionError
      else if dbl_overflow \<le> \<bar>of_int a / of_int b\<bar> then Inl OverflowError
      else Inr (fl (of_int a / of_int b)))"

text \<open>\<open>x * y\<close> on two floats: a product too large is an infinity, not an exception.\<close>

definition float_mul :: "pyfloat \<Rightarrow> pyfloat \<Rightarrow> pyfloat" where
  "float_mul a b =
     (case (a, b) of
        (Fin x, Fin y) \<Rightarrow> if dbl_overflow \<le> \<bar>x * y\<bar> then Inf else Fin (fl (x * y))
      | (Fin x, Inf) \<Rightarrow> if x = 0 then NaN else Inf
      | (Inf, Fin y) \<Rightarrow> if y = 0 then NaN else Inf
      | (Inf, Inf) \<Rightarrow> Inf
      | _ \<Rightarrow> NaN)"

text \<open>\<open>x / y\<close> on two floats: only a zero divisor raises.\<close>

definition float_truediv :: "pyfloat \<Rightarrow> pyfloat \<Rightarrow> error + pyfloat" where
  "float_truediv a b =
     (case b of
        Fin y \<Rightarrow>
          if y = 0 then Inl ZeroDivisionError
          else (case a of
                  Fin x \<Rightarrow> if dbl_overflow \<le> \<bar>x / y\<bar> then Inr Inf else Inr (Fin (fl (x / y)))
                | Inf \<Rightarrow> Inr Inf
                | NaN \<Rightarrow> Inr NaN)
      | Inf \<Rightarrow> (case a of Fin x \<Rightarrow> Inr (Fin 0) | _ \<Rightarrow> Inr NaN)
      | NaN \<Rightarrow> Inr NaN)"

text \<open>\<open>int(round(p))\<close>: rounding an infinity or a NaN raises.\<close>

definition round_float :: "pyfloat \<Rightarrow> error + int" where
  "round_float p =
     (case p of
        Fin x \<Rightarrow> Inr (py_round x)
      | Inf \<Rightarrow> Inl OverflowError
      | NaN \<Rightarrow> Inl ValueError)"

text \<open>\<open>max(1, int(round(n * scale)))\<close> for an int \<open>n\<close> and a float \<open>scale\<close>.\<close>

definition scaled_dim :: "int \<Rightarrow> pyfloat \<Rightarrow> error + int" where
  "scaled_dim n scale =
     (case float_of_int n of
        Inl e \<Rightarrow> Inl e
      | Inr x \<Rightarrow>
          (case round_float (float_mul (Fin x) scale) of
             Inl e \<Rightarrow> Inl e
           | Inr r \<Rightarrow> Inr (max 1 r)))"

subsection \<open>Strings\<close>

text \<open>
  A string is a list of characters with code points below 256. \<open>str.strip()\<close> removes the
  characters for which \<open>str.isspace\<close> holds; \<open>str.lower()\<close> is modelled on the ASCII
  letters, the only ones the module compares against.
\<close>

definition is_space :: "char \<Rightarrow> bool" where
  "is_space c \<longleftrightarrow>
     c \<in> set [CHR 0x09, CHR 0x0A, CHR 0x0B, CHR 0x0C, CHR 0x0D, CHR 0x1C, CHR 0x1D,
               CHR 0x1E, CHR 0x1F, CHR 0x20, CHR 0x85, CHR 0xA0]"

definition strip_chars :: "(char \<Rightarrow> bool) \<Rightarrow> string \<Rightarrow> string" where
  "strip_chars P s = rev (dropWhile P (rev (dropWhile P s)))"

definition strip :: "string \<Rightarrow> string" where
  "strip s = strip_chars is_space s"

definition upper_letters :: string where
  "upper_letters = ''ABCDEFGHIJKLMNOPQRSTUVWXYZ''"

definition lower_letters :: string where
  "lower_letters = ''abcdefghijklmnopqrstuvwxyz''"

definition digit_chars :: string where
  "digit_chars = ''0123456789''"

definition lower_char :: "char \<Rightarrow> char" where
  "lower_char c = (case map_of (zip upper_letters lower_letters) c of Some d \<Rightarrow> d | None \<Rightarrow> c)"

definition lower :: "string \<Rightarrow> string" where
  "lower s = map lower_char s"

definition is_digit :: "char \<Rightarrow> bool" where
  "is_digit c \<longleftrightarrow> c \<in> set digit_chars"

definition is_alnum :: "char \<Rightarrow> bool" where
  "is_alnum c \<longleftrightarrow> c \<in> set upper_letters \<or> c \<in> set lower_letters \<or> c \<in> set digit_chars"

definition digit_val :: "char \<Rightarrow> int" where
  "digit_val c = (case map_of (zip digit_chars [0, 1, 2, 3, 4, 5, 6, 7, 8, 9]) c of
                    Some d \<Rightarrow> d | None \<Rightarrow> 0)"

text \<open>
  \<open>int(s)\<close> in base 10: surrounding whitespace is ignored, then an optional sign and
  decimal digits, a single underscore allowed between two digits. \<open>None\<close> is
  \<open>ValueError\<close>. The whitespace \<open>int\<close> ignores is not that of \<open>str.strip\<close>: the four
  separators \<open>0x1C\<close> to \<open>0x1F\<close> are whitespace for \<open>strip\<close> and an error for \<open>int\<close>.
  A text of more than 4300 digits is an error too (the default of
  \<open>sys.set_int_max_str_digits\<close>; signs, underscores and whitespace are not counted).
\<close>

definition is_int_space :: "char \<Rightarrow> bool" where
  "is_int_space c \<longleftrightarrow>
     c \<in> set [CHR 0x09, CHR 0x0A, CHR 0x0B, CHR 0x0C, CHR 0x0D, CHR 0x20, CHR 0x85, CHR 0xA0]"

definition int_max_str_digits :: nat where
  "int_max_str_digits = 4300"

fun py_digits :: "int \<Rightarrow> string \<Rightarrow> int option" where
  "py_digits acc [] = Some acc"
| "py_digits acc [c] = (if is_digit c then Some (10 * acc + digit_val c) else None)"
| "py_digits acc (c # d # cs) =
     (if is_digit c then py_digits (10 * acc + digit_val c) (d # cs)
      else if c = CHR ''_'' \<and> is_digit d then py_digits (10 * acc + digit_val d) cs
      else None)"

definition py_unsigned :: "string \<Rightarrow> int option" where
  "py_unsigned s =
     (case s of [] \<Rightarrow> None | c # cs \<Rightarrow> if is_digit c then py_digits (digit_val c) cs else None)"

definition py_int :: "string \<Rightarrow> int option" where
  "py_int v =
     (case strip_chars is_int_space v of
        [] \<Rightarrow> None
      | c # cs \<Rightarrow>
          if int_max_str_digits < length (filter is_digit (c # cs)) then None
          else if c = CHR ''-'' then map_option uminus (py_unsigned cs)
          else if c = CHR ''+'' then py_unsigned cs
          else py_unsigned (c # cs))"

text \<open>The characters a string accepted by \<open>int\<close> can contain.\<close>

definition int_char :: "char \<Rightarrow> bool" where
  "int_char c \<longleftrightarrow> is_space c \<or> is_digit c \<or> c = CHR ''_'' \<or> c = CHR ''+'' \<or> c = CHR ''-''"

text \<open>\<open>str(n)\<close> for a natural number, as the f-strings of the module format it.\<close>

fun str_nat :: "nat \<Rightarrow> string" where
  "str_nat n = (if n < 10 then [digit_chars ! n] else str_nat (n div 10) @ [digit_chars ! (n mod 10)])"

definition str_int :: "int \<Rightarrow> string" where
  "str_int i = (if i < 0 then CHR ''-'' # str_nat (nat (- i)) else str_nat (nat i))"

declare str_nat.simps [simp del]

section \<open>Helpers of the module\<close>

definition MAX_DIMENSION :: int where
  "MAX_DIMENSION = 20000"

subsection \<open>File names\<close>

text \<open>
  \<open>re.sub(pattern+, "_", name)\<close> for a one-character class: every maximal run of
  characters of the class becomes a single underscore.
\<close>

function sub_runs :: "(char \<Rightarrow> bool) \<Rightarrow> string \<Rightarrow> string" where
  "sub_runs P [] = []"
| "sub_runs P (c # cs) =
     (if P c then CHR ''_'' # sub_runs P (dropWhile P cs) else c # sub_runs P cs)"
  by pat_completeness auto
termination
  by (relation "measure (\<lambda>(P, s). length s)") (auto simp: le_imp_less_Suc length_dropWhile_le)

definition filename_char :: "char \<Rightarrow> bool" where
  "filename_char c \<longleftrightarrow> is_alnum c \<or> c = CHR ''.'' \<or> c = CHR ''_'' \<or> c = CHR ''-''"

text \<open>The last element of \<open>s.split("/")\<close>: what follows the last slash.\<close>

definition last_component :: "string \<Rightarrow> string" where
  "last_component s = rev (takeWhile (\<lambda>c. c \<noteq> CHR ''/'') (rev s))"

definition clean_filename :: "string \<Rightarrow> string" where
  "clean_filename name =
     (let n1 = last_component (map (\<lambda>c. if c = CHR 0x5C then CHR ''/'' else c) (strip name));
          n2 = sub_runs (\<lambda>c. \<not> filename_char c) n1;
          n3 = strip_chars (\<lambda>c. c = CHR ''_'') (sub_runs (\<lambda>c. c = CHR ''_'') n2)
      in if n3 = [] then ''image'' else n3)"

text \<open>
  \<open>_split_name_ext\<close> matches \<open>^(.*?)(\.[A-Za-z0-9]+)?$\<close>. The dot of the pattern does
  not match a line feed and \<open>$\<close> also matches before a final line feed, so a name with a
  line feed elsewhere does not match at all and is returned whole; otherwise the
  extension is what follows the last dot, when that is a non-empty alphanumeric run.
\<close>

definition split_last_dot :: "string \<Rightarrow> string \<times> string" where
  "split_last_dot s =
     (let e = rev (takeWhile (\<lambda>c. c \<noteq> CHR ''.'') (rev s))
      in if length e < length s \<and> e \<noteq> [] \<and> list_all is_alnum e
         then (take (length s - length e - 1) s, CHR ''.'' # e)
         else (s, []))"

definition split_name_ext :: "string \<Rightarrow> string \<times> string" where
  "split_name_ext name =
     (if CHR 0x0A \<in> set (butlast name) then (name, [])
      else if name \<noteq> [] \<and> last name = CHR 0x0A then split_last_dot (butlast name)
      else split_last_dot name)"

definition format_ext :: "string \<Rightarrow> string" where
  "format_ext fmt = (if fmt = ''jpeg'' then ''.jpg'' else CHR ''.'' # fmt)"

subsection \<open>Request fields\<close>

definition parse_int :: "string option \<Rightarrow> int option" where
  "parse_int v =
     (case v of
        None \<Rightarrow> None
      | Some s \<Rightarrow> if strip s = [] then None else py_int (strip s))"

text \<open>\<open>_validate_dims\<close> checks the width first, then the height.\<close>

definition validate_dim :: "int option \<Rightarrow> error + unit" where
  "validate_dim n =
     (case n of
        None \<Rightarrow> Inr ()
      | Some k \<Rightarrow>
          if k \<le> 0 then Inl (HTTPException 400 ''Width/Height must be positive.'')
          else if MAX_DIMENSION < k
            then Inl (HTTPException 400 (''Max dimension is '' @ str_int MAX_DIMENSION @ ''px.''))
          else Inr ())"

definition validate_dims :: "int option \<Rightarrow> int option \<Rightarrow> error + unit" where
  "validate_dims w h = (case validate_dim w of Inl e \<Rightarrow> Inl e | Inr u \<Rightarrow> validate_dim h)"

text \<open>The empty string is the module's marker for an unsupported format.\<close>

definition normalize_format :: "string \<Rightarrow> string" where
  "normalize_format fmt =
     (let f = lower (strip fmt)
      in if f = ''jpg'' \<or> f = ''jpeg'' then ''jpeg''
         else if f = ''png'' then ''png''
         else if f = ''webp'' then ''webp''
         else [])"

section \<open>The dimension resolver\<close>

text \<open>
  \<open>_fit_size_keep_ratio(ow, oh, tw, th)\<close>. Both elements of the returned tuple use the
  same \<open>scale\<close>; Python evaluates them left to right.
\<close>

definition scaled_pair :: "int \<Rightarrow> int \<Rightarrow> rat \<Rightarrow> error + int \<times> int" where
  "scaled_pair ow oh scale =
     (case scaled_dim ow (Fin scale) of
        Inl e \<Rightarrow> Inl e
      | Inr nw \<Rightarrow>
          (case scaled_dim oh (Fin scale) of Inl e \<Rightarrow> Inl e | Inr nh \<Rightarrow> Inr (nw, nh)))"

definition fit_size_keep_ratio ::
  "int \<Rightarrow> int \<Rightarrow> int option \<Rightarrow> int option \<Rightarrow> error + int \<times> int" where
  "fit_size_keep_ratio ow oh tw th =
     (case (tw, th) of
        (None, None) \<Rightarrow> Inr (ow, oh)
      | (Some w, None) \<Rightarrow>
          (case int_truediv w ow of Inl e \<Rightarrow> Inl e | Inr scale \<Rightarrow> scaled_pair ow oh scale)
      | (None, Some h) \<Rightarrow>
          (case int_truediv h oh of Inl e \<Rightarrow> Inl e | Inr scale \<Rightarrow> scaled_pair ow oh scale)
      | (Some w, Some h) \<Rightarrow>
          (case int_truediv w ow of
             Inl e \<Rightarrow> Inl e
           | Inr sw \<Rightarrow>
               (case int_truediv h oh of
                  Inl e \<Rightarrow> Inl e
                | Inr sh \<Rightarrow> scaled_pair ow oh (min sw sh))))"

section \<open>The image pipeline\<close>

text \<open>
  Pillow is outside the module. A decoded image is the data the module reads from it:
  its size, its mode, whether \<open>"transparency"\<close> is a key of \<open>img.info\<close>, and the
  raster. The library calls are parameters of the model, collected in a record; nothing
  is assumed about them, except that they return (an encoder or resampler that raises
  is not modelled).
\<close>

record image =
  img_size :: "int \<times> int"
  img_mode :: string
  img_transparency :: bool
  img_raster :: "8 word list"

text \<open>
  The keyword arguments of the three \<open>img.save\<close> calls: quality, optimize and
  progressive for JPEG; quality and method for WEBP; optimize and compress level for PNG.
\<close>

datatype save_args = SaveJPEG int bool bool | SaveWEBP int int | SavePNG bool int

text \<open>
  \<open>pil_open\<close> is \<open>Image.open\<close> followed by \<open>ImageOps.exif_transpose\<close>, \<open>Inl\<close> carrying
  the text of the exception either raises; \<open>pil_resize\<close> is \<open>img.resize\<close> with the
  LANCZOS filter; \<open>pil_flatten\<close> is the paste of the RGBA conversion onto a new white
  RGB image, masked by the alpha band.
\<close>

record pil =
  pil_open :: "8 word list \<Rightarrow> string + image"
  pil_resize :: "image \<Rightarrow> int \<times> int \<Rightarrow> image"
  pil_convert :: "image \<Rightarrow> string \<Rightarrow> image"
  pil_flatten :: "image \<Rightarrow> image"
  pil_save :: "image \<Rightarrow> save_args \<Rightarrow> 8 word list"

text \<open>\<open>tw or ow\<close>: the default replaces \<open>None\<close> and also \<open>0\<close>.\<close>

definition or_default :: "int option \<Rightarrow> int \<Rightarrow> int" where
  "or_default t d = (case t of None \<Rightarrow> d | Some v \<Rightarrow> if v = 0 then d else v)"

definition resize_image :: "pil \<Rightarrow> image \<Rightarrow> int option \<Rightarrow> int option \<Rightarrow> bool \<Rightarrow> error + image" where
  "resize_image lib img tw th keep_ratio =
     (let (ow, oh) = img_size img
      in if tw = None \<and> th = None then Inr img
         else (case (if keep_ratio then fit_size_keep_ratio ow oh tw th
                     else Inr (or_default tw ow, or_default th oh)) of
                 Inl e \<Rightarrow> Inl e
               | Inr (nw, nh) \<Rightarrow>
                   if (nw, nh) = (ow, oh) then Inr img else Inr (pil_resize lib img (nw, nh))))"

definition prepare_for_format :: "pil \<Rightarrow> image \<Rightarrow> string \<Rightarrow> image" where
  "prepare_for_format lib img out_fmt =
     (if out_fmt = ''jpeg'' then
        (if img_mode img = ''RGBA'' \<or> img_mode img = ''LA''
            \<or> (img_mode img = ''P'' \<and> img_transparency img)
         then pil_flatten lib img
         else if img_mode img \<noteq> ''RGB'' then pil_convert lib img ''RGB'' else img)
      else if out_fmt = ''png'' \<or> out_fmt = ''webp'' then
        (if img_mode img = ''P'' then pil_convert lib img ''RGBA'' else img)
      else img)"

text \<open>
  The PNG branch of \<open>_save_image\<close>:
  \<open>compress_level = max(0, min(9, int(round((100 - q) * 9 / 90))))\<close>.
\<close>

definition png_compress_level :: "int \<Rightarrow> error + int" where
  "png_compress_level q =
     (case int_truediv ((100 - q) * 9) 90 of
        Inl e \<Rightarrow> Inl e
      | Inr x \<Rightarrow> Inr (max 0 (min 9 (py_round x))))"

text \<open>
  The formula as the specification words it, in exact arithmetic:
  \<open>effort_level = round((100 - quality) * 9 / 90)\<close>, clamped to \<open>[0, 9]\<close>, with
  \<open>round\<close> the rounding of the language (an exact half goes to the even integer).
\<close>

definition effort_level_spec :: "int \<Rightarrow> int" where
  "effort_level_spec q = max 0 (min 9 (py_round (of_int ((100 - q) * 9) / 90)))"

definition save_image :: "pil \<Rightarrow> image \<Rightarrow> string \<Rightarrow> int \<Rightarrow> error + 8 word list" where
  "save_image lib img out_fmt quality =
     (let q = max 10 (min 100 quality)
      in if out_fmt = ''jpeg'' then Inr (pil_save lib img (SaveJPEG q True True))
         else if out_fmt = ''webp'' then Inr (pil_save lib img (SaveWEBP q 6))
         else if out_fmt = ''png'' then
           (case png_compress_level q of
              Inl e \<Rightarrow> Inl e
            | Inr compress_level \<Rightarrow> Inr (pil_save lib img (SavePNG True compress_level)))
         else Inl (HTTPException 400 ''Unsupported output format.''))"

definition process_bytes ::
  "pil \<Rightarrow> 8 word list \<Rightarrow> int option \<Rightarrow> int option \<Rightarrow> bool \<Rightarrow> int \<Rightarrow> string
     \<Rightarrow> error + 8 word list \<times> (int \<times> int)" where
  "process_bytes lib data width height keep_ratio quality out_fmt =
     (case pil_open lib data of
        Inl msg \<Rightarrow> Inl (HTTPException 400 (''Could not read image: '' @ msg))
      | Inr img \<Rightarrow>
          (case validate_dims width height of
             Inl e \<Rightarrow> Inl e
           | Inr u \<Rightarrow>
               (case resize_image lib img width height keep_ratio of
                  Inl e \<Rightarrow> Inl e
                | Inr resized \<Rightarrow>
                    (let prepared = prepare_for_format lib resized out_fmt
                     in case save_image lib prepared out_fmt quality of
                          Inl e \<Rightarrow> Inl e
                        | Inr out \<Rightarrow> Inr (out, img_size prepared)))))"

section \<open>The endpoints\<close>

text \<open>
  An upload is a file name, which may be missing, and the bytes \<open>await f.read()\<close>
  returns. A handler returns the exception it raises or its response, together with the
  log of the reads and decodes it has performed up to that point.
\<close>

record upload =
  upload_filename :: "string option"
  upload_content :: "8 word list"

datatype event = ReadUpload | DecodeImage

datatype body = ImageBytes "8 word list" | ZipArchive "(string \<times> 8 word list) list"

record response =
  status_code :: nat
  media_type :: string
  headers :: "(string \<times> string) list"
  content :: body

text \<open>\<open>f.filename or default\<close>: the default replaces \<open>None\<close> and the empty string.\<close>

definition filename_or :: "upload \<Rightarrow> string \<Rightarrow> string" where
  "filename_or f d = (case upload_filename f of None \<Rightarrow> d | Some s \<Rightarrow> if s = [] then d else s)"

definition bad_format :: error where
  "bad_format = HTTPException 400 ''Output format must be JPG, PNG, or WEBP.''"

subsection \<open>\<open>POST /api/process\<close>\<close>

definition process_single ::
  "pil \<Rightarrow> upload \<Rightarrow> string option \<Rightarrow> string option \<Rightarrow> bool \<Rightarrow> int \<Rightarrow> string
     \<Rightarrow> (error + response) \<times> event list" where
  "process_single lib file width height keep_ratio quality out_format =
     (let out_fmt = normalize_format out_format
      in if out_fmt = [] then (Inl bad_format, [])
         else
           (let w = parse_int width; h = parse_int height; data = upload_content file
            in if data = [] then (Inl (HTTPException 400 ''Empty file.''), [ReadUpload])
               else
                 (case process_bytes lib data w h keep_ratio quality out_fmt of
                    Inl e \<Rightarrow> (Inl e, [ReadUpload, DecodeImage])
                  | Inr (out_bytes, (nw, nh)) \<Rightarrow>
                      (let safe = clean_filename (filename_or file ''image'');
                           (base_name, ext) = split_name_ext safe;
                           out_name = base_name @ format_ext out_fmt
                       in (Inr \<lparr>status_code = 200,
                                media_type = ''image/'' @ out_fmt,
                                headers =
                                  [(''Content-Disposition'',
                                    ''attachment; filename='' @ [CHR 0x22] @ out_name @ [CHR 0x22]),
                                   (''X-Original-Bytes'', str_nat (length data)),
                                   (''X-Processed-Bytes'', str_nat (length out_bytes)),
                                   (''X-Output-Width'', str_int nw),
                                   (''X-Output-Height'', str_int nh)],
                                content = ImageBytes out_bytes\<rparr>,
                           [ReadUpload, DecodeImage])))))"

subsection \<open>\<open>POST /api/process-zip\<close>\<close>

text \<open>
  The preset token: the pair \<open>(pct, fixed)\<close> the handler computes from it. Both are
  \<open>None\<close> when the token is neither form.
\<close>

definition parse_preset :: "string option \<Rightarrow> int option \<times> (int \<times> int) option" where
  "parse_preset preset =
     (let p = strip (case preset of None \<Rightarrow> [] | Some s \<Rightarrow> s)
      in if p \<noteq> [] \<and> last p = CHR ''%'' then
           (case py_int (butlast p) of
              None \<Rightarrow> (None, None)
            | Some n \<Rightarrow> if n \<le> 0 then (None, None) else (Some n, None))
         else if CHR ''x'' \<in> set p then
           (let l = lower p;
                a = takeWhile (\<lambda>c. c \<noteq> CHR ''x'') l;
                b = drop 1 (dropWhile (\<lambda>c. c \<noteq> CHR ''x'') l)
            in case py_int a of
                 None \<Rightarrow> (None, None)
               | Some m \<Rightarrow>
                   (case py_int b of None \<Rightarrow> (None, None) | Some n \<Rightarrow> (None, Some (m, n))))
         else (None, None))"

text \<open>
  The two shapes of a preset token, read off the token itself after trimming: an integer
  above zero followed by a percent sign; two integers around the first \<open>x\<close>. Integers
  are what Python's \<open>int\<close> accepts.
\<close>

definition is_percent_token :: "string \<Rightarrow> bool" where
  "is_percent_token p =
     (let t = strip p
      in t \<noteq> [] \<and> last t = CHR ''%''
         \<and> (case py_int (butlast t) of None \<Rightarrow> False | Some n \<Rightarrow> 0 < n))"

definition is_fixed_token :: "string \<Rightarrow> bool" where
  "is_fixed_token p =
     (let t = strip p
      in CHR ''x'' \<in> set t
         \<and> py_int (takeWhile (\<lambda>c. c \<noteq> CHR ''x'') t) \<noteq> None
         \<and> py_int (drop 1 (dropWhile (\<lambda>c. c \<noteq> CHR ''x'') t)) \<noteq> None)"

text \<open>\<open>max(1, int(round(o * (pct / 100.0))))\<close>, one axis of a percentage preset.\<close>

definition pct_dim :: "int \<Rightarrow> int \<Rightarrow> error + int" where
  "pct_dim orig pct =
     (case float_of_int pct of
        Inl e \<Rightarrow> Inl e
      | Inr x \<Rightarrow>
          (case float_truediv (Fin x) (Fin 100) of
             Inl e \<Rightarrow> Inl e
           | Inr s \<Rightarrow> scaled_dim orig s))"

text \<open>
  What one iteration of the loop decides before it calls \<open>_process_bytes\<close>: the
  \<open>continue\<close> of the percentage branch, an exception of its arithmetic, or the pair
  \<open>(use_w, use_h)\<close>.
\<close>

datatype target = Skip | Raise error | Use "int option" "int option"

definition file_target ::
  "pil \<Rightarrow> int option \<Rightarrow> (int \<times> int) option \<Rightarrow> int option \<Rightarrow> int option \<Rightarrow> 8 word list
     \<Rightarrow> target" where
  "file_target lib pct fixed w h data =
     (case pct of
        Some p \<Rightarrow>
          (case pil_open lib data of
             Inl msg \<Rightarrow> Skip
           | Inr im \<Rightarrow>
               (let (ow, oh) = img_size im
                in case pct_dim ow p of
                     Inl e \<Rightarrow> Raise e
                   | Inr tw \<Rightarrow>
                       (case pct_dim oh p of
                          Inl e \<Rightarrow> Raise e
                        | Inr th \<Rightarrow> Use (Some tw) (Some th))))
      | None \<Rightarrow>
          (case fixed of
             Some (a, b) \<Rightarrow> Use (Some a) (Some b)
           | None \<Rightarrow> Use w h))"

text \<open>
  The archive entry name of a file (lines 288 to 294), from the names already in the
  archive and the number of files written so far.
\<close>

definition base_name_of :: "nat \<Rightarrow> upload \<Rightarrow> string" where
  "base_name_of processed_count f =
     fst (split_name_ext (clean_filename (filename_or f (''image_'' @ str_nat (processed_count + 1)))))"

definition entry_name :: "string \<Rightarrow> string list \<Rightarrow> nat \<Rightarrow> upload \<Rightarrow> string" where
  "entry_name out_fmt namelist processed_count f =
     (let base_name = base_name_of processed_count f;
          out_name = base_name @ format_ext out_fmt
      in if out_name \<in> set namelist
         then base_name @ ''_'' @ str_nat (processed_count + 1) @ format_ext out_fmt
         else out_name)"

text \<open>The request fields the loop reads, after parsing.\<close>

record batch =
  b_pct :: "int option"
  b_fixed :: "(int \<times> int) option"
  b_w :: "int option"
  b_h :: "int option"
  b_keep_ratio :: bool
  b_quality :: int
  b_out_fmt :: string

text \<open>The archive under construction, the counter and the log.\<close>

record zip_state =
  zs_entries :: "(string \<times> 8 word list) list"
  zs_count :: nat
  zs_events :: "event list"

definition log_events :: "event list \<Rightarrow> zip_state \<Rightarrow> zip_state" where
  "log_events es st = st\<lparr>zs_events := zs_events st @ es\<rparr>"

text \<open>
  One iteration of \<open>for f in files\<close>. The first component is the exception that leaves
  the loop, if any; \<open>continue\<close> returns the state with only the log extended.
\<close>

definition zip_step :: "pil \<Rightarrow> batch \<Rightarrow> upload \<Rightarrow> zip_state \<Rightarrow> error option \<times> zip_state" where
  "zip_step lib cfg f st =
     (let data = upload_content f;
          opened = (if b_pct cfg = None then [] else [DecodeImage])
      in if data = [] then (None, log_events [ReadUpload] st)
         else
           (case file_target lib (b_pct cfg) (b_fixed cfg) (b_w cfg) (b_h cfg) data of
              Skip \<Rightarrow> (None, log_events (ReadUpload # opened) st)
            | Raise e \<Rightarrow> (Some e, log_events (ReadUpload # opened) st)
            | Use use_w use_h \<Rightarrow>
                (case process_bytes lib data use_w use_h (b_keep_ratio cfg) (b_quality cfg)
                        (b_out_fmt cfg) of
                   Inl e \<Rightarrow> (Some e, log_events (ReadUpload # opened @ [DecodeImage]) st)
                 | Inr (out_bytes, out_size) \<Rightarrow>
                     (let out_name =
                            entry_name (b_out_fmt cfg) (map fst (zs_entries st)) (zs_count st) f
                      in (None,
                          log_events (ReadUpload # opened @ [DecodeImage])
                            (st\<lparr>zs_entries := zs_entries st @ [(out_name, out_bytes)],
                                zs_count := zs_count st + 1\<rparr>))))))"

text \<open>A file the batch cannot use: its body is empty, or Pillow cannot decode it.\<close>

definition unusable :: "pil \<Rightarrow> upload \<Rightarrow> bool" where
  "unusable lib f \<longleftrightarrow>
     upload_content f = [] \<or> (\<exists>msg. pil_open lib (upload_content f) = Inl msg)"

fun zip_loop :: "pil \<Rightarrow> batch \<Rightarrow> upload list \<Rightarrow> zip_state \<Rightarrow> error option \<times> zip_state" where
  "zip_loop lib cfg [] st = (None, st)"
| "zip_loop lib cfg (f # fs) st =
     (case zip_step lib cfg f st of
        (Some e, st') \<Rightarrow> (Some e, st')
      | (None, st') \<Rightarrow> zip_loop lib cfg fs st')"

definition process_zip ::
  "pil \<Rightarrow> upload list \<Rightarrow> string option \<Rightarrow> string option \<Rightarrow> string option \<Rightarrow> bool \<Rightarrow> int
     \<Rightarrow> string \<Rightarrow> (error + response) \<times> event list" where
  "process_zip lib files width height preset keep_ratio quality out_format =
     (if files = [] then (Inl (HTTPException 400 ''No files uploaded.''), [])
      else
        (let out_fmt = normalize_format out_format
         in if out_fmt = [] then (Inl bad_format, [])
            else
              (let w = parse_int width; h = parse_int height;
                   (pct, fixed) = parse_preset preset;
                   cfg = \<lparr>b_pct = pct, b_fixed = fixed, b_w = w, b_h = h,
                          b_keep_ratio = keep_ratio, b_quality = quality, b_out_fmt = out_fmt\<rparr>
               in case zip_loop lib cfg files
                         \<lparr>zs_entries = [], zs_count = 0, zs_events = []\<rparr> of
                    (Some e, st) \<Rightarrow> (Inl e, zs_events st)
                  | (None, st) \<Rightarrow>
                      if zs_count st = 0
                      then (Inl (HTTPException 400 ''All uploaded files were empty or invalid.''),
                            zs_events st)
                      else (Inr \<lparr>status_code = 200,
                                 media_type = ''application/zip'',
                                 headers =
                                   [(''Content-Disposition'',
                                     ''attachment; filename='' @ [CHR 0x22]
                                       @ ''processed_images.zip'' @ [CHR 0x22])],
                                 content = ZipArchive (zs_entries st)\<rparr>,
                            zs_events st))))"

section \<open>A stand-in for Pillow\<close>

text \<open>
  The closed examples below need some decoder. This one reads a two-byte file
  \<open>[w, h]\<close> as an RGB image of \<open>10 w\<close> by \<open>10 h\<close> pixels and rejects every other
  file; resizing sets the size, saving returns the raster.
\<close>

definition demo_open :: "8 word list \<Rightarrow> string + image" where
  "demo_open data =
     (case data of
        [w, h] \<Rightarrow> Inr \<lparr>img_size = (10 * uint w, 10 * uint h), img_mode = ''RGB'',
                       img_transparency = False, img_raster = data\<rparr>
      | _ \<Rightarrow> Inl ''cannot identify image file'')"

definition demo_pil :: pil where
  "demo_pil =
     \<lparr>pil_open = demo_open,
      pil_resize = (\<lambda>img sz. img\<lparr>img_size := sz\<rparr>),
      pil_convert = (\<lambda>img m. img\<lparr>img_mode := m\<rparr>),
      pil_flatten = (\<lambda>img. img\<lparr>img_mode := ''RGB''\<rparr>),
      pil_save = (\<lambda>img args. img_raster img)\<rparr>"

definition demo_image :: image where
  "demo_image =
     \<lparr>img_size = (800, 600), img_mode = ''RGB'', img_transparency = False, img_raster = [8, 6]\<rparr>"

section \<open>Properties of the float model\<close>

lemma ilog2_bounds:
  assumes "0 < x"
  shows "2 powi (ilog2 x) \<le> x" and "x < 2 powi (ilog2 x + 1)"
proof -
  have "2 powi (ilog2 x) \<le> x \<and> x < 2 powi (ilog2 x + 1)"
  proof (cases "1 \<le> x")
    case True
    define n where "n = nat \<lfloor>x\<rfloor>"
    define k where "k = floorlog 2 n"
    have n: "0 < n" using True by (simp add: n_def)
    have b: "2 ^ (k - 1) \<le> n" "n < 2 ^ k"
      using floorlog_bounds[of n 2] n by (simp_all add: k_def)
    have k: "0 < k" using n by (simp add: k_def floorlog_eq_zero_iff Suc_le_eq) (metis floorlog_eq_zero_iff not_gr_zero not_less one_less_numeral_iff semiring_norm(76))
    have e: "ilog2 x = int k - 1" using True by (simp add: ilog2_def n_def k_def)
    have "rat_of_nat n = of_int \<lfloor>x\<rfloor>" using True by (simp add: n_def)
    then have nx: "rat_of_nat n \<le> x" "x < rat_of_nat n + 1"
      by linarith+
    have p1: "(2::rat) powi (int k - 1) = 2 ^ (k - 1)"
      using k by (simp add: power_int_def nat_diff_distrib')
    have p2: "(2::rat) powi (int k - 1 + 1) = 2 ^ k" by simp
    have "(2::rat) ^ (k - 1) \<le> rat_of_nat n" using b(1) by (metis of_nat_le_iff of_nat_numeral of_nat_power)
    moreover have "rat_of_nat n + 1 \<le> 2 ^ k" using b(2) 
      by (metis Suc_leI of_nat_Suc of_nat_le_iff of_nat_numeral of_nat_power add.commute)
    ultimately show ?thesis using nx unfolding e p1 p2 by linarith
  next
    case False
    define c where "c = \<lceil>1 / x\<rceil>"
    define m where "m = nat (c - 1)"
    define k where "k = floorlog 2 m"
    have x1: "1 < 1 / x" using False assms by simp
    have c2: "2 \<le> c" using x1 unfolding c_def by linarith
    have m: "0 < m" "int m = c - 1" using c2 by (simp_all add: m_def)
    have b: "2 ^ (k - 1) \<le> m" "m < 2 ^ k"
      using floorlog_bounds[of m 2] m by (simp_all add: k_def)
    have k: "0 < k" using m(1) unfolding k_def
      by (metis floorlog_eq_zero_iff not_gr_zero not_less one_less_numeral_iff semiring_norm(76))
    have e: "ilog2 x = - int k" using False by (simp add: ilog2_def c_def m_def k_def)
    have cx: "1 / x \<le> of_int c" "of_int c - 1 < 1 / x"
      unfolding c_def by linarith+
    have "int m + 1 \<le> 2 ^ k" using b(2) by (metis Suc_leI of_nat_Suc of_nat_le_iff of_nat_numeral of_nat_power add.commute)
    then have "c \<le> 2 ^ k" using m(2) by simp
    then have "(of_int c :: rat) \<le> 2 ^ k" by (metis of_int_le_iff of_int_numeral of_int_power)
    then have u: "1 / x \<le> 2 ^ k" using cx(1) by linarith
    have "(2::int) ^ (k - 1) \<le> int m" using b(1) by (metis of_nat_le_iff of_nat_numeral of_nat_power)
    then have "(2::int) ^ (k - 1) \<le> c - 1" using m(2) by simp
    then have "(2::rat) ^ (k - 1) \<le> of_int (c - 1)" by (metis of_int_le_iff of_int_numeral of_int_power)
    then have l: "(2::rat) ^ (k - 1) < 1 / x" using cx(2) by simp
    have p1: "(2::rat) powi (- int k) = 1 / 2 ^ k" by (simp add: power_int_minus_divide)
    have p2: "(2::rat) powi (- int k + 1) = 1 / 2 ^ (k - 1)"
    proof -
      have "- int k + 1 = - int (k - 1)" using k by simp
      then show ?thesis by (simp only: power_int_minus_divide power_int_of_nat)
    qed
    have "1 / 2 ^ k \<le> x" using u assms by (simp add: field_simps)
    moreover have "x < 1 / 2 ^ (k - 1)" using l assms by (simp add: field_simps)
    ultimately show ?thesis unfolding e p1 p2 by simp
  qed
  then show "2 powi (ilog2 x) \<le> x" and "x < 2 powi (ilog2 x + 1)" by simp_all
qed

lemma py_round_error: "\<bar>of_int (py_round x) - x\<bar> \<le> 1 / 2"
  unfolding py_round_def Let_def by (auto simp: abs_if) linarith+

lemma py_round_le: "x < of_int n + 1 / 2 \<Longrightarrow> py_round x \<le> n"
  unfolding py_round_def Let_def by (auto; linarith)

lemma py_round_ge: "of_int n - 1 / 2 < x \<Longrightarrow> n \<le> py_round x"
  unfolding py_round_def Let_def by (auto; linarith)

lemma py_round_near: "\<bar>x - of_int n\<bar> < 1 / 2 \<Longrightarrow> py_round x = n"
proof -
  assume a: "\<bar>x - of_int n\<bar> < 1 / 2"
  then have "x < of_int n + 1 / 2" "of_int n - 1 / 2 < x" by linarith+
  then have "py_round x \<le> n" "n \<le> py_round x"
    using py_round_le[of x n] py_round_ge[of n x] by blast+
  then show ?thesis by simp
qed


lemma ilog2_ge: "0 < x \<Longrightarrow> 2 powi i \<le> x \<Longrightarrow> i \<le> ilog2 x"
proof (rule ccontr)
  assume a: "0 < x" "2 powi i \<le> x" "\<not> i \<le> ilog2 x"
  then have "ilog2 x + 1 \<le> i" by simp
  then have "(2::rat) powi (ilog2 x + 1) \<le> 2 powi i" by (intro power_int_increasing) simp_all
  with ilog2_bounds(2)[OF a(1)] a(2) show False by linarith
qed

lemma ilog2_le: "0 < x \<Longrightarrow> x < 2 powi (i + 1) \<Longrightarrow> ilog2 x \<le> i"
proof (rule ccontr)
  assume a: "0 < x" "x < 2 powi (i + 1)" "\<not> ilog2 x \<le> i"
  then have "i + 1 \<le> ilog2 x" by simp
  then have "(2::rat) powi (i + 1) \<le> 2 powi (ilog2 x)" by (intro power_int_increasing) simp_all
  with ilog2_bounds(1)[OF a(1)] a(2) show False by linarith
qed

lemma fl_at_exponent:
  assumes "2 powi (e + 52) \<le> \<bar>x\<bar>" "\<bar>x\<bar> < 2 powi (e + 53)" "- 1074 \<le> e"
  shows "fl x = of_int (py_round (x / 2 powi e)) * 2 powi e"
proof -
  have "(0::rat) < 2 powi (e + 52)" by simp
  with assms(1) have pos: "0 < \<bar>x\<bar>" by linarith
  have "e + 52 \<le> ilog2 \<bar>x\<bar>" using ilog2_ge[OF pos assms(1)] .
  moreover have "ilog2 \<bar>x\<bar> \<le> e + 52" using ilog2_le[OF pos, of "e + 52"] assms(2) by (simp add: add.assoc)
  ultimately have "ilog2 \<bar>x\<bar> = e + 52" by simp
  then have "max (ilog2 \<bar>x\<bar>) (- 1022) - 52 = e" using assms(3) by simp
  then show ?thesis using pos by (simp add: fl_def Let_def)
qed

lemma fl_rel_error:
  assumes "2 powi (- 1022) \<le> \<bar>x\<bar>"
  shows "\<bar>fl x - x\<bar> \<le> \<bar>x\<bar> / 2 ^ 53"
proof -
  define i where "i = ilog2 \<bar>x\<bar>"
  define e where "e = i - 52"
  define m where "m = x / 2 powi e"
  have "(0::rat) < 2 powi (- 1022)" by simp
  with assms have pos: "0 < \<bar>x\<bar>" by linarith
  have i: "- 1022 \<le> i" unfolding i_def using ilog2_ge[OF pos assms] .
  have lo: "2 powi i \<le> \<bar>x\<bar>" unfolding i_def using ilog2_bounds(1)[OF pos] .
  have pe: "(0::rat) < 2 powi e" by simp
  have f: "fl x = of_int (py_round m) * 2 powi e"
    using pos i by (simp add: fl_def Let_def i_def[symmetric] e_def m_def max_def)
  have x: "x = m * 2 powi e" by (simp add: m_def)
  have "m * 2 powi e = x" by (simp add: m_def)
  then have "fl x - x = (of_int (py_round m) - m) * 2 powi e"
    unfolding f by (simp add: left_diff_distrib)
  then have "\<bar>fl x - x\<bar> = \<bar>of_int (py_round m) - m\<bar> * 2 powi e"
    by (simp add: abs_mult)
  also have "\<dots> \<le> 1 / 2 * 2 powi e"
    using py_round_error[of m] pe by (intro mult_right_mono) simp_all
  also have "\<dots> = 2 powi i / 2 ^ 53"
    by (simp add: e_def power_int_diff)
  also have "\<dots> \<le> \<bar>x\<bar> / 2 ^ 53" using lo by (simp add: divide_right_mono)
  finally show ?thesis .
qed

lemma fl_bounds:
  assumes "2 powi (- 1022) \<le> x"
  shows "(1 - 1 / 2 ^ 53) * x \<le> fl x" and "fl x \<le> (1 + 1 / 2 ^ 53) * x"
proof -
  have "(0::rat) < 2 powi (- 1022)" by simp
  with assms have pos: "0 < x" by linarith
  then have "\<bar>fl x - x\<bar> \<le> x / 2 ^ 53" using fl_rel_error[of x] assms by simp
  then have "x - x / 2 ^ 53 \<le> fl x \<and> fl x \<le> x + x / 2 ^ 53" by linarith
  then show "(1 - 1 / 2 ^ 53) * x \<le> fl x" and "fl x \<le> (1 + 1 / 2 ^ 53) * x"
    by (simp_all add: algebra_simps)
qed

lemma dbl_overflow_lower: "2 ^ 1023 \<le> dbl_overflow"
proof -
  have "(2::rat) ^ 970 \<le> 2 ^ 1023" by (rule power_increasing) simp_all
  moreover have "(2::rat) ^ 1024 = 2 * 2 ^ 1023" by simp
  ultimately show ?thesis unfolding dbl_overflow_def by linarith
qed

lemma below_overflow: "\<bar>x\<bar> \<le> 2 ^ k \<Longrightarrow> k \<le> 1022 \<Longrightarrow> \<not> dbl_overflow \<le> \<bar>x\<bar>"
proof -
  assume a: "\<bar>x\<bar> \<le> 2 ^ k" "k \<le> 1022"
  have "(2::rat) ^ k < 2 ^ 1023" using a(2) by (intro power_strict_increasing) simp_all
  with a(1) dbl_overflow_lower show ?thesis by linarith
qed

lemma normal_lower: "1 / 2 ^ k \<le> x \<Longrightarrow> k \<le> 1022 \<Longrightarrow> 2 powi (- 1022) \<le> (x::rat)"
proof -
  assume a: "1 / 2 ^ k \<le> x" "k \<le> 1022"
  have "(2::rat) ^ k \<le> 2 ^ 1022" using a(2) by (intro power_increasing) simp_all
  then have "1 / (2::rat) ^ 1022 \<le> 1 / 2 ^ k" by (intro divide_left_mono) simp_all
  moreover have "(2::rat) powi (- 1022) = 1 / 2 ^ 1022" by (simp add: power_int_minus_divide)
  ultimately show ?thesis using a(1) by linarith
qed

lemma scaled_dim_value:
  assumes n: "1 \<le> n" "n \<le> 2 ^ 1000" and s: "1 / 2 ^ 1010 \<le> s" "s * of_int n \<le> 2 ^ 42"
  shows "\<exists>p. scaled_dim n (Fin s) = Inr (max 1 (py_round p))
           \<and> (1 - 1 / 2 ^ 53) * ((1 - 1 / 2 ^ 53) * (s * of_int n)) \<le> p
           \<and> p \<le> (1 + 1 / 2 ^ 53) * ((1 + 1 / 2 ^ 53) * (s * of_int n))"
proof -
  define a :: rat where "a = of_int n"
  define x where "x = fl a"
  define lo :: rat where "lo = 1 - 1 / 2 ^ 53"
  define hi :: rat where "hi = 1 + 1 / 2 ^ 53"
  have lohi: "1 / 2 \<le> lo" "0 \<le> lo" "hi \<le> 2" "0 \<le> hi" by (simp_all add: lo_def hi_def)
  have a1: "1 \<le> a" using n(1) by (simp add: a_def)
  have "(of_int n :: rat) \<le> of_int (2 ^ 1000)" using n(2) by (simp only: of_int_le_iff)
  then have a2: "\<bar>a\<bar> \<le> 2 ^ 1000" using a1 by (simp add: a_def)
  have "(0::rat) < 1 / 2 ^ 1010" by simp
  with s(1) have spos: "0 < s" by linarith
  have an: "2 powi (- 1022) \<le> a" using normal_lower[of 0 a] a1 by simp
  have xb: "lo * a \<le> x" "x \<le> hi * a"
    unfolding x_def lo_def hi_def using fl_bounds[OF an] by simp_all
  have "1 / 2 * a \<le> lo * a" using lohi(1) a1 by (intro mult_right_mono) simp_all
  then have xpos: "0 < x" using xb(1) a1 by linarith
  have no1: "\<not> dbl_overflow \<le> \<bar>a\<bar>" using below_overflow[OF a2] by simp
  have f1: "float_of_int n = Inr x" using no1 by (simp add: float_of_int_def a_def x_def)
  have sa0: "0 < s * a" using spos a1 by simp
  have up: "x * s \<le> hi * (s * a)"
    using mult_right_mono[OF xb(2), of s] spos by (simp add: mult_ac)
  have low: "lo * (s * a) \<le> x * s"
    using mult_right_mono[OF xb(1), of s] spos by (simp add: mult_ac)
  have sa: "s * a \<le> 2 ^ 42" using s(2) by (simp add: a_def)
  have "hi * (s * a) \<le> 2 * (s * a)" using sa0 lohi(3) by (intro mult_right_mono) simp_all
  then have "x * s \<le> 2 ^ 43" using up sa by simp
  moreover have xs0: "0 < x * s" using xpos spos by simp
  ultimately have "\<bar>x * s\<bar> \<le> 2 ^ 43" by simp
  then have no2: "\<not> dbl_overflow \<le> \<bar>x * s\<bar>" using below_overflow[of "x * s" 43] by simp
  have "s * 1 \<le> s * a" using a1 spos by (intro mult_left_mono) simp_all
  then have "s \<le> s * a" by simp
  with s(1) have "1 / 2 ^ 1010 \<le> s * a" by linarith
  moreover have "1 / 2 * (s * a) \<le> lo * (s * a)" using sa0 lohi(1) by (intro mult_right_mono) simp_all
  moreover have "(1::rat) / 2 ^ 1011 = 1 / 2 * (1 / 2 ^ 1010)" by simp
  ultimately have "1 / 2 ^ 1011 \<le> x * s" using low by linarith
  then have xn: "2 powi (- 1022) \<le> x * s" using normal_lower[of 1011 "x * s"] by simp
  define p where "p = fl (x * s)"
  have pb: "lo * (x * s) \<le> p" "p \<le> hi * (x * s)"
    unfolding p_def lo_def hi_def using fl_bounds[OF xn] by simp_all
  have "scaled_dim n (Fin s) = Inr (max 1 (py_round p))"
    using f1 no2 by (simp add: scaled_dim_def float_mul_def round_float_def p_def)
  moreover have "lo * (lo * (s * a)) \<le> p"
    using pb(1) mult_left_mono[OF low lohi(2)] by simp
  moreover have "p \<le> hi * (hi * (s * a))"
    using pb(2) mult_left_mono[OF up lohi(4)] by simp
  ultimately show ?thesis unfolding a_def lo_def hi_def by blast
qed

lemma cube_bounds:
  "(1 + 1 / 2 ^ 53) * ((1 + 1 / 2 ^ 53) * (1 + 1 / 2 ^ 53)) \<le> (1 + 1 / 2 ^ 50 :: rat)"
  "(1 - 1 / 2 ^ 50 :: rat) \<le> (1 - 1 / 2 ^ 53) * ((1 - 1 / 2 ^ 53) * (1 - 1 / 2 ^ 53))"
  by simp_all

lemma scaled_dim_upper:
  assumes n: "1 \<le> n" "n \<le> 2 ^ 1000" and t: "1 \<le> t" "t \<le> 20000"
    and s: "1 / 2 ^ 1010 \<le> s" "s * of_int n \<le> (1 + 1 / 2 ^ 53) * of_int t"
  shows "\<exists>r. scaled_dim n (Fin s) = Inr r \<and> 1 \<le> r \<and> r \<le> t"
proof -
  define c :: rat where "c = of_int t"
  define hi :: rat where "hi = 1 + 1 / 2 ^ 53"
  have c: "1 \<le> c" "c \<le> 20000" using t by (simp_all add: c_def)
  have hi: "0 \<le> hi" "hi \<le> 2" by (simp_all add: hi_def)
  have sn: "s * of_int n \<le> hi * c" "True" using s(2) by (simp_all add: hi_def c_def)
  have "hi * c \<le> 2 * c" using hi c by (intro mult_right_mono) simp_all
  moreover have "(2::rat) ^ 42 = 4398046511104" by simp
  ultimately have "s * of_int n \<le> 2 ^ 42" using sn(1) c by linarith
  from scaled_dim_value[OF n s(1) this] obtain p where
    p: "scaled_dim n (Fin s) = Inr (max 1 (py_round p))" "p \<le> hi * (hi * (s * of_int n))"
    unfolding hi_def by blast
  have h1: "hi * (s * of_int n) \<le> hi * (hi * c)" by (rule mult_left_mono[OF sn(1) hi(1)])
  have "hi * (hi * (s * of_int n)) \<le> hi * (hi * (hi * c))" by (rule mult_left_mono[OF h1 hi(1)])
  also have "\<dots> = (hi * (hi * hi)) * c" by (simp add: mult_ac)
  also have "\<dots> \<le> (1 + 1 / 2 ^ 50) * c"
    using cube_bounds(1) c unfolding hi_def by (intro mult_right_mono) simp_all
  also have "\<dots> = c + c / 2 ^ 50" by (simp add: algebra_simps)
  finally have "p \<le> c + c / 2 ^ 50" using p(2) by linarith
  moreover have "c / 2 ^ 50 \<le> 20000 / 2 ^ 50" using c(2) by (intro divide_right_mono) simp_all
  moreover have "(20000::rat) / 2 ^ 50 < 1 / 2" by simp
  ultimately have "p < of_int t + 1 / 2" unfolding c_def by linarith
  then have "py_round p \<le> t" by (rule py_round_le)
  then have "max 1 (py_round p) \<le> t" "1 \<le> max 1 (py_round p)" using t(1) by simp_all
  with p(1) show ?thesis by blast
qed

lemma scaled_dim_exact:
  assumes n: "1 \<le> n" "n \<le> 2 ^ 1000" and t: "1 \<le> t" "t \<le> 20000"
    and s: "1 / 2 ^ 1010 \<le> s" "s * of_int n \<le> (1 + 1 / 2 ^ 53) * of_int t"
      "(1 - 1 / 2 ^ 53) * of_int t \<le> s * of_int n"
  shows "scaled_dim n (Fin s) = Inr t"
proof -
  define c :: rat where "c = of_int t"
  define hi :: rat where "hi = 1 + 1 / 2 ^ 53"
  define lo :: rat where "lo = 1 - 1 / 2 ^ 53"
  have c: "1 \<le> c" "c \<le> 20000" using t by (simp_all add: c_def)
  have hi: "0 \<le> hi" "hi \<le> 2" by (simp_all add: hi_def)
  have lo: "0 \<le> lo" by (simp add: lo_def)
  have sn: "s * of_int n \<le> hi * c" "lo * c \<le> s * of_int n"
    using s(2,3) by (simp_all add: hi_def lo_def c_def)
  have "hi * c \<le> 2 * c" using hi c by (intro mult_right_mono) simp_all
  moreover have "(2::rat) ^ 42 = 4398046511104" by simp
  ultimately have "s * of_int n \<le> 2 ^ 42" using sn(1) c by linarith
  from scaled_dim_value[OF n s(1) this] obtain p where
    p: "scaled_dim n (Fin s) = Inr (max 1 (py_round p))" "p \<le> hi * (hi * (s * of_int n))"
       "lo * (lo * (s * of_int n)) \<le> p"
    unfolding hi_def lo_def by blast
  have small: "c / 2 ^ 50 \<le> 20000 / 2 ^ 50" "(20000::rat) / 2 ^ 50 < 1 / 2"
    using c(2) by (simp_all add: divide_right_mono)
  have h1: "hi * (s * of_int n) \<le> hi * (hi * c)" by (rule mult_left_mono[OF sn(1) hi(1)])
  have "hi * (hi * (s * of_int n)) \<le> hi * (hi * (hi * c))" by (rule mult_left_mono[OF h1 hi(1)])
  also have "\<dots> = (hi * (hi * hi)) * c" by (simp add: mult_ac)
  also have "\<dots> \<le> (1 + 1 / 2 ^ 50) * c"
    using cube_bounds(1) c unfolding hi_def by (intro mult_right_mono) simp_all
  also have "\<dots> = c + c / 2 ^ 50" by (simp add: algebra_simps)
  finally have up: "p \<le> c + c / 2 ^ 50" using p(2) by linarith
  have l1: "lo * (lo * c) \<le> lo * (s * of_int n)" by (rule mult_left_mono[OF sn(2) lo])
  have "lo * (lo * (lo * c)) \<le> lo * (lo * (s * of_int n))" by (rule mult_left_mono[OF l1 lo])
  moreover have "lo * (lo * (lo * c)) = (lo * (lo * lo)) * c" by (simp add: mult_ac)
  moreover have "(1 - 1 / 2 ^ 50) * c \<le> (lo * (lo * lo)) * c"
    using cube_bounds(2) c unfolding lo_def by (intro mult_right_mono) simp_all
  moreover have "(1 - 1 / 2 ^ 50) * c = c - c / 2 ^ 50" by (simp add: algebra_simps)
  ultimately have low: "c - c / 2 ^ 50 \<le> p" using p(3) by linarith
  have "\<bar>p - of_int t\<bar> < 1 / 2" using up low small unfolding c_def by linarith
  then have "py_round p = t" by (rule py_round_near)
  then show ?thesis using p(1) t(1) by simp
qed

lemma int_truediv_scale:
  assumes n: "1 \<le> n" "n \<le> 2 ^ 1000" and t: "1 \<le> t" "t \<le> 20000"
  shows "\<exists>sc. int_truediv t n = Inr sc \<and> 1 / 2 ^ 1010 \<le> sc
           \<and> sc * of_int n \<le> (1 + 1 / 2 ^ 53) * of_int t
           \<and> (1 - 1 / 2 ^ 53) * of_int t \<le> sc * of_int n"
proof -
  define a :: rat where "a = of_int n"
  define c :: rat where "c = of_int t"
  define q where "q = c / a"
  have a1: "1 \<le> a" using n(1) by (simp add: a_def)
  have "(of_int n :: rat) \<le> of_int (2 ^ 1000)" using n(2) by (simp only: of_int_le_iff)
  then have a2: "a \<le> 2 ^ 1000" by (simp add: a_def)
  have c: "1 \<le> c" "c \<le> 20000" using t by (simp_all add: c_def)
  have apos: "0 < a" using a1 by linarith
  have qa: "q * a = c" using apos by (simp add: q_def)
  have "q \<le> c" using a1 c unfolding q_def by (simp add: divide_le_eq)
  then have q2: "\<bar>q\<bar> \<le> 2 ^ 15" using c apos by (simp add: q_def)
  have "1 / a \<le> q" using c(1) apos unfolding q_def by (intro divide_right_mono) simp_all
  moreover have "1 / 2 ^ 1000 \<le> 1 / a" using a2 apos by (intro divide_left_mono) simp_all
  ultimately have q1: "1 / 2 ^ 1000 \<le> q" by linarith
  have qn: "2 powi (- 1022) \<le> q" using normal_lower[OF q1] by simp
  have no: "\<not> dbl_overflow \<le> \<bar>q\<bar>" using below_overflow[OF q2] by simp
  have n0: "n \<noteq> 0" using n(1) by simp
  have d: "int_truediv t n = Inr (fl q)"
    using no n0 by (simp add: int_truediv_def q_def a_def c_def)
  have b: "(1 - 1 / 2 ^ 53) * q \<le> fl q" "fl q \<le> (1 + 1 / 2 ^ 53) * q"
    using fl_bounds[OF qn] by simp_all
  have "fl q * a \<le> (1 + 1 / 2 ^ 53) * q * a" using b(2) apos by (intro mult_right_mono) simp_all
  then have u: "fl q * a \<le> (1 + 1 / 2 ^ 53) * c" using qa by (simp add: mult.assoc)
  have "(1 - 1 / 2 ^ 53) * q * a \<le> fl q * a" using b(1) apos by (intro mult_right_mono) simp_all
  then have l: "(1 - 1 / 2 ^ 53) * c \<le> fl q * a" using qa by (simp add: mult.assoc)
  have qpos: "0 < q" using apos c unfolding q_def by simp
  have "1 / 2 * q \<le> (1 - 1 / 2 ^ 53) * q" using qpos by (intro mult_right_mono) simp_all
  moreover have "(1::rat) / 2 ^ 1001 = 1 / 2 * (1 / 2 ^ 1000)" by simp
  ultimately have "1 / 2 ^ 1001 \<le> fl q" using b(1) q1 by linarith
  moreover have "(1::rat) / 2 ^ 1010 \<le> 1 / 2 ^ 1001"
    by (intro divide_left_mono power_increasing) simp_all
  ultimately have "1 / 2 ^ 1010 \<le> fl q" by linarith
  with d u l show ?thesis unfolding a_def c_def by blast
qed

lemma floor_rat_div_numeral: "\<lfloor>numeral a / numeral b :: rat\<rfloor> = numeral a div numeral b"
  using floor_divide_of_int_eq[of "numeral a" "numeral b", where ?'a = rat] by simp

lemma floor_rat_one_div_numeral: "\<lfloor>1 / numeral b :: rat\<rfloor> = 1 div numeral b"
  using floor_divide_of_int_eq[of 1 "numeral b", where ?'a = rat] by simp

lemma fl_zero: "fl 0 = 0"
  by (simp add: fl_def)

text \<open>
  Evaluation of the float operations on numerals: \<open>fl_at_exponent\<close> at the exponents of
  the values between \<open>1/16\<close> and \<open>1024\<close>, which covers the examples.
\<close>

lemmas fl_eval = py_round_def Let_def power_int_minus_divide floor_rat_div_numeral
  floor_rat_one_div_numeral

lemmas fl_exponents =
  fl_at_exponent[where e="-56"] fl_at_exponent[where e="-55"] fl_at_exponent[where e="-54"]
  fl_at_exponent[where e="-53"] fl_at_exponent[where e="-52"] fl_at_exponent[where e="-51"]
  fl_at_exponent[where e="-50"] fl_at_exponent[where e="-49"] fl_at_exponent[where e="-48"]
  fl_at_exponent[where e="-47"] fl_at_exponent[where e="-46"] fl_at_exponent[where e="-45"]
  fl_at_exponent[where e="-44"] fl_at_exponent[where e="-43"]

lemmas float_eval = float_of_int_def int_truediv_def float_truediv_def float_mul_def
  round_float_def scaled_dim_def dbl_overflow_def fl_exponents fl_eval fl_zero

section \<open>The dimension resolver fits inside the box\<close>

text \<open>
  Claim C1. With both target dimensions given, each in \<open>(0, 20000]\<close>, and an original
  size of at least 1 by 1, \<open>_fit_size_keep_ratio\<close> returns a size \<open>(nw, nh)\<close> with
  \<open>nw \<le> tw\<close> and \<open>nh \<le> th\<close>, one of the two with equality: the result fits inside
  the box and touches it. The original dimensions are bounded by \<open>2^1000\<close>, far above
  any raster (Pillow keeps sizes in C ints), so that no operation leaves the range of
  normal doubles; the three roundings of \<open>tw / ow\<close>, \<open>float(ow)\<close> and their product
  move the exact value \<open>tw\<close> by less than one half, and \<open>round\<close> restores it.
\<close>

theorem fit_inside_box:
  assumes o: "1 \<le> ow" "ow \<le> 2 ^ 1000" "1 \<le> oh" "oh \<le> 2 ^ 1000"
    and t: "1 \<le> tw" "tw \<le> MAX_DIMENSION" "1 \<le> th" "th \<le> MAX_DIMENSION"
  shows "\<exists>nw nh. fit_size_keep_ratio ow oh (Some tw) (Some th) = Inr (nw, nh)
           \<and> 1 \<le> nw \<and> nw \<le> tw \<and> 1 \<le> nh \<and> nh \<le> th \<and> (nw = tw \<or> nh = th)"
proof -
  have tw: "tw \<le> 20000" and th: "th \<le> 20000" using t by (simp_all add: MAX_DIMENSION_def)
  from int_truediv_scale[OF o(1,2) t(1) tw] obtain sw where
    sw: "int_truediv tw ow = Inr sw" "1 / 2 ^ 1010 \<le> sw"
      "sw * of_int ow \<le> (1 + 1 / 2 ^ 53) * of_int tw"
      "(1 - 1 / 2 ^ 53) * of_int tw \<le> sw * of_int ow" by blast
  from int_truediv_scale[OF o(3,4) t(3) th] obtain sh where
    sh: "int_truediv th oh = Inr sh" "1 / 2 ^ 1010 \<le> sh"
      "sh * of_int oh \<le> (1 + 1 / 2 ^ 53) * of_int th"
      "(1 - 1 / 2 ^ 53) * of_int th \<le> sh * of_int oh" by blast
  define s where "s = min sw sh"
  have s1: "1 / 2 ^ 1010 \<le> s" using sw(2) sh(2) by (simp add: s_def)
  have owp: "(0::rat) \<le> of_int ow" and ohp: "(0::rat) \<le> of_int oh" using o(1,3) by simp_all
  have "s * of_int ow \<le> sw * of_int ow" using owp by (intro mult_right_mono) (simp_all add: s_def)
  then have uw: "s * of_int ow \<le> (1 + 1 / 2 ^ 53) * of_int tw" using sw(3) by linarith
  have "s * of_int oh \<le> sh * of_int oh" using ohp by (intro mult_right_mono) (simp_all add: s_def)
  then have uh: "s * of_int oh \<le> (1 + 1 / 2 ^ 53) * of_int th" using sh(3) by linarith
  from scaled_dim_upper[OF o(1,2) t(1) tw s1 uw] obtain nw where
    nw: "scaled_dim ow (Fin s) = Inr nw" "1 \<le> nw" "nw \<le> tw" by blast
  from scaled_dim_upper[OF o(3,4) t(3) th s1 uh] obtain nh where
    nh: "scaled_dim oh (Fin s) = Inr nh" "1 \<le> nh" "nh \<le> th" by blast
  have r: "fit_size_keep_ratio ow oh (Some tw) (Some th) = Inr (nw, nh)"
    using sw(1) sh(1) nw(1) nh(1) by (simp add: fit_size_keep_ratio_def scaled_pair_def s_def)
  have "nw = tw \<or> nh = th"
  proof (cases "sw \<le> sh")
    case True
    then have "s = sw" by (simp add: s_def)
    then have "scaled_dim ow (Fin s) = Inr tw"
      using scaled_dim_exact[OF o(1,2) t(1) tw s1 uw] sw(4) by simp
    with nw(1) show ?thesis by simp
  next
    case False
    then have "s = sh" by (simp add: s_def)
    then have "scaled_dim oh (Fin s) = Inr th"
      using scaled_dim_exact[OF o(3,4) t(3) th s1 uh] sh(4) by simp
    with nh(1) show ?thesis by simp
  qed
  with r nw nh show ?thesis by blast
qed

theorem fit_inside_box_witness:
  "\<exists>nw nh. fit_size_keep_ratio 800 600 (Some 400) (Some 400) = Inr (nw, nh)
           \<and> 1 \<le> nw \<and> nw \<le> 400 \<and> 1 \<le> nh \<and> nh \<le> 400 \<and> (nw = 400 \<or> nh = 400)"
proof -
  have "(800::int) \<le> 2 ^ 1000" "(600::int) \<le> 2 ^ 1000"
    using power_increasing[of 10 1000 "2::int"] by simp_all
  then show ?thesis
    using fit_inside_box[of 800 600 400 400] by (simp add: MAX_DIMENSION_def)
qed

section \<open>Request parsing\<close>

lemma no_overflow_small: "\<bar>x\<bar> \<le> 1048576 \<Longrightarrow> \<not> dbl_overflow \<le> \<bar>x\<bar>"
  using below_overflow[of x 20] by simp

lemma parse_int_unparseable: "py_int (strip v) = None \<Longrightarrow> parse_int (Some v) = None"
  by (simp add: parse_int_def)

text \<open>
  Claim C10. A width or height field whose text is not a base-10 integer for Python's
  \<open>int\<close> (for instance \<open>abc\<close>, or only whitespace) is read as an absent field:
  \<open>_parse_int\<close> returns \<open>None\<close>, the validation of the dimensions accepts it without a
  range check, and each endpoint answers exactly as it does when the field is missing, so
  no error comes from the value. The text is judged as \<open>_parse_int\<close> hands it to
  \<open>int\<close>, that is after \<open>str.strip\<close>.
\<close>

theorem unparseable_dimension_is_absent:
  assumes "py_int (strip v) = None"
  shows "parse_int (Some v) = None
       \<and> validate_dims (parse_int (Some v)) (parse_int (Some v)) = Inr ()
       \<and> process_single lib file (Some v) height keep_ratio quality out_format
           = process_single lib file None height keep_ratio quality out_format
       \<and> process_single lib file width (Some v) keep_ratio quality out_format
           = process_single lib file width None keep_ratio quality out_format
       \<and> process_zip lib files (Some v) height preset keep_ratio quality out_format
           = process_zip lib files None height preset keep_ratio quality out_format
       \<and> process_zip lib files width (Some v) preset keep_ratio quality out_format
           = process_zip lib files width None preset keep_ratio quality out_format"
proof -
  have p: "parse_int (Some v) = None" by (rule parse_int_unparseable[OF assms])
  have n: "parse_int None = None" by (simp add: parse_int_def)
  show ?thesis
    unfolding process_single_def process_zip_def p n
    by (simp add: validate_dims_def validate_dim_def)
qed

theorem unparseable_dimension_is_absent_witness:
  "parse_int (Some ''abc'') = None
   \<and> parse_int (Some ''   '') = None
   \<and> process_single demo_pil \<lparr>upload_filename = Some ''a.png'', upload_content = [8, 6]\<rparr>
        (Some ''abc'') None True 85 ''png''
       = process_single demo_pil \<lparr>upload_filename = Some ''a.png'', upload_content = [8, 6]\<rparr>
        None None True 85 ''png''"
proof -
  have a: "py_int (strip ''abc'') = None"
    by (simp add: py_int_def strip_def strip_chars_def is_space_def is_int_space_def
        int_max_str_digits_def py_unsigned_def is_digit_def digit_chars_def)
  have b: "py_int (strip ''   '') = None"
    by (simp add: py_int_def strip_def strip_chars_def is_space_def is_int_space_def)
  show ?thesis
    using unparseable_dimension_is_absent[OF a, of demo_pil _ None True 85 "''png''"]
      unparseable_dimension_is_absent[OF b]
    by simp
qed

section \<open>The encoder\<close>

text \<open>
  Claim C8. \<open>_save_image\<close> clamps the quality to \<open>[10, 100]\<close> before any encoder sees
  it: for every image, every format and whatever the Pillow encoders compute, a quality
  below 10 gives the result of quality 10 and a quality above 100 the result of quality
  100.
\<close>

theorem quality_is_clamped:
  "(q < 10 \<longrightarrow> save_image lib img out_fmt q = save_image lib img out_fmt 10)
   \<and> (100 < q \<longrightarrow> save_image lib img out_fmt q = save_image lib img out_fmt 100)"
  by (simp add: save_image_def)

theorem quality_is_clamped_witness:
  "save_image demo_pil demo_image ''webp'' 3 = save_image demo_pil demo_image ''webp'' 10
   \<and> save_image demo_pil demo_image ''jpeg'' 250 = save_image demo_pil demo_image ''jpeg'' 100"
  using quality_is_clamped[of 3 demo_pil demo_image "''webp''"]
    quality_is_clamped[of 250 demo_pil demo_image "''jpeg''"]
  by simp

section \<open>Rejection of an unsupported format\<close>

text \<open>
  Claim C6. When the \<open>out_format\<close> field, trimmed and lower-cased, is none of
  \<open>jpg\<close>, \<open>jpeg\<close>, \<open>png\<close>, \<open>webp\<close>, both endpoints raise an HTTP 400 exception with an
  empty log: no upload has been read and no image decoded. (The batch endpoint checks
  for an empty file list first; that is an HTTP 400 with an empty log too.)
\<close>

theorem unsupported_format_rejected:
  assumes "lower (strip out_format) \<notin> {''jpg'', ''jpeg'', ''png'', ''webp''}"
  shows "(\<exists>detail. process_single lib file width height keep_ratio quality out_format
            = (Inl (HTTPException 400 detail), []))
       \<and> (\<exists>detail. process_zip lib files width height preset keep_ratio quality out_format
            = (Inl (HTTPException 400 detail), []))"
proof -
  have "normalize_format out_format = []" using assms by (simp add: normalize_format_def)
  then show ?thesis by (simp add: process_single_def process_zip_def bad_format_def)
qed

theorem unsupported_format_rejected_witness:
  "(\<exists>detail. process_single demo_pil \<lparr>upload_filename = Some ''a.png'', upload_content = [8, 6]\<rparr>
       None None True 85 ''bmp'' = (Inl (HTTPException 400 detail), []))
   \<and> (\<exists>detail. process_zip demo_pil [\<lparr>upload_filename = Some ''a.png'', upload_content = [8, 6]\<rparr>]
       None None None True 85 ''bmp'' = (Inl (HTTPException 400 detail), []))"
proof -
  have "lower (strip ''bmp'') \<notin> {''jpg'', ''jpeg'', ''png'', ''webp''}"
    by (simp add: lower_def lower_char_def upper_letters_def lower_letters_def strip_def strip_chars_def is_space_def)
  from unsupported_format_rejected[OF this] show ?thesis by blast
qed

section \<open>The PNG compression level\<close>

lemmas png_eval = png_compress_level_def effort_level_spec_def float_eval

lemma png_levels:
  "list_all (\<lambda>q. png_compress_level q = Inr (effort_level_spec q)) [10..100]"
  by (simp add: png_eval)

lemma png_level_in_range:
  "10 \<le> q \<Longrightarrow> q \<le> 100 \<Longrightarrow> png_compress_level q = Inr (effort_level_spec q)"
proof -
  assume "10 \<le> q" "q \<le> 100"
  then have "q \<in> set [10..100]" by (simp only: set_upto atLeastAtMost_iff)
  moreover have "\<forall>q\<in>set [10..100]. png_compress_level q = Inr (effort_level_spec q)"
    using png_levels by (simp only: list_all_iff)
  ultimately show ?thesis by blast
qed

lemma py_round_mono: "x \<le> y \<Longrightarrow> py_round x \<le> py_round y"
proof -
  assume xy: "x \<le> y"
  have "y \<le> of_int (py_round y) + 1 / 2" using py_round_error[of y] by linarith
  then consider "x < of_int (py_round y) + 1 / 2" | "x = y" using xy by linarith
  then show ?thesis
  proof cases
    case 1
    then show ?thesis by (rule py_round_le)
  next
    case 2
    then show ?thesis by simp
  qed
qed

lemma effort_level_spec_antimono:
  "q \<le> q' \<Longrightarrow> effort_level_spec q' \<le> effort_level_spec q"
proof -
  assume "q \<le> q'"
  then have "(100 - q') * 9 \<le> (100 - q) * 9" by simp
  then have "(of_int ((100 - q') * 9) :: rat) \<le> of_int ((100 - q) * 9)" by (simp only: of_int_le_iff)
  then have "(of_int ((100 - q') * 9) :: rat) / 90 \<le> of_int ((100 - q) * 9) / 90"
    by (intro divide_right_mono) simp_all
  then have "py_round (of_int ((100 - q') * 9) / 90) \<le> py_round (of_int ((100 - q) * 9) / 90)"
    by (rule py_round_mono)
  then show ?thesis unfolding effort_level_spec_def by linarith
qed

text \<open>
  Claim C5. For every quality \<open>q\<close> in \<open>[10, 100]\<close> the compress level \<open>_save_image\<close>
  passes to the PNG encoder is the formula of the specification evaluated exactly: the
  float division of the code changes nothing. The level lies in \<open>[0, 9]\<close>, differs
  from \<open>(100 - q) / 10\<close> by at most one half, is 0 at quality 100 and 9 at quality 10, and
  never increases when the quality does.
\<close>

theorem png_effort_mapping:
  "(10 \<le> q \<and> q \<le> 100 \<longrightarrow>
      png_compress_level q = Inr (effort_level_spec q)
      \<and> save_image lib img ''png'' q = Inr (pil_save lib img (SavePNG True (effort_level_spec q)))
      \<and> 0 \<le> effort_level_spec q \<and> effort_level_spec q \<le> 9
      \<and> \<bar>of_int (effort_level_spec q) - (100 - of_int q) / 10\<bar> \<le> (1 / 2 :: rat))
   \<and> png_compress_level 100 = Inr 0
   \<and> png_compress_level 10 = Inr 9
   \<and> (10 \<le> q \<and> q \<le> q' \<and> q' \<le> 100 \<longrightarrow>
        (\<exists>a b. png_compress_level q = Inr a \<and> png_compress_level q' = Inr b \<and> b \<le> a))"
proof -
  have ends: "png_compress_level 100 = Inr 0" "png_compress_level 10 = Inr 9"
    by (simp_all add: png_eval)
  have mono: "\<exists>a b. png_compress_level q = Inr a \<and> png_compress_level q' = Inr b \<and> b \<le> a"
    if "10 \<le> q" "q \<le> q'" "q' \<le> 100"
    using that png_level_in_range[of q] png_level_in_range[of q'] effort_level_spec_antimono[of q q']
    by simp
  have main: "png_compress_level q = Inr (effort_level_spec q)
      \<and> save_image lib img ''png'' q = Inr (pil_save lib img (SavePNG True (effort_level_spec q)))
      \<and> 0 \<le> effort_level_spec q \<and> effort_level_spec q \<le> 9
      \<and> \<bar>of_int (effort_level_spec q) - (100 - of_int q) / 10\<bar> \<le> (1 / 2 :: rat)"
    if q: "10 \<le> q" "q \<le> 100"
  proof -
    define x :: rat where "x = of_int ((100 - q) * 9) / 90"
    have x: "x = (100 - of_int q) / 10" by (simp add: x_def)
    have "(of_int q :: rat) \<le> 100" "(10 :: rat) \<le> of_int q" using q by simp_all
    then have xr: "0 \<le> x" "x \<le> 9" unfolding x by simp_all
    have "py_round 0 \<le> py_round x" "py_round x \<le> py_round 9"
      using xr by (simp_all only: py_round_mono)
    moreover have "py_round 0 = 0" "py_round 9 = 9" by (simp_all add: py_round_def)
    ultimately have r: "0 \<le> py_round x" "py_round x \<le> 9" by simp_all
    then have e: "effort_level_spec q = py_round x" by (simp add: effort_level_spec_def x_def)
    have l: "png_compress_level q = Inr (effort_level_spec q)" using q by (rule png_level_in_range)
    have "save_image lib img ''png'' q = Inr (pil_save lib img (SavePNG True (effort_level_spec q)))"
      using q l by (simp add: save_image_def)
    moreover have "\<bar>of_int (effort_level_spec q) - (100 - of_int q) / 10\<bar> \<le> (1 / 2 :: rat)"
      unfolding e x[symmetric] by (rule py_round_error)
    ultimately show ?thesis using l r e by simp
  qed
  show ?thesis using ends mono main by blast
qed

theorem png_effort_mapping_witness:
  "png_compress_level 95 = Inr (effort_level_spec 95)
   \<and> effort_level_spec 95 = 0
   \<and> (\<exists>a b. png_compress_level 40 = Inr a \<and> png_compress_level 60 = Inr b \<and> b \<le> a)"
proof -
  have "effort_level_spec 95 = 0" by (simp add: effort_level_spec_def fl_eval)
  then show ?thesis using png_effort_mapping[of 95 demo_pil demo_image 60] png_effort_mapping[of 40 demo_pil demo_image 60]
    by auto
qed

section \<open>The batch loop\<close>

lemma log_events_fields [simp]:
  "zs_entries (log_events es st) = zs_entries st" "zs_count (log_events es st) = zs_count st"
  by (simp_all add: log_events_def)

lemma zip_step_count:
  assumes "zip_step lib cfg f st = (r, st')" "zs_count st = length (zs_entries st)"
  shows "zs_count st' = length (zs_entries st')"
  using assms unfolding zip_step_def Let_def
  by (auto split: if_splits target.splits sum.splits prod.splits)

lemma zip_loop_count:
  "zip_loop lib cfg fs st = (r, st') \<Longrightarrow> zs_count st = length (zs_entries st)
     \<Longrightarrow> zs_count st' = length (zs_entries st')"
proof (induction fs arbitrary: st)
  case Nil
  then show ?case by simp
next
  case (Cons f fs)
  obtain r1 st1 where s: "zip_step lib cfg f st = (r1, st1)" by (cases "zip_step lib cfg f st")
  have c1: "zs_count st1 = length (zs_entries st1)" using zip_step_count[OF s Cons.prems(2)] .
  show ?case
  proof (cases r1)
    case None
    then show ?thesis using Cons.prems(1) s Cons.IH[OF _ c1] by simp
  next
    case (Some e)
    then show ?thesis using Cons.prems(1) s c1 by simp
  qed
qed

lemma zip_step_unusable:
  assumes "unusable lib f"
  shows "(\<exists>d st'. zip_step lib cfg f st = (Some (HTTPException 400 d), st'))
       \<or> (\<exists>st'. zip_step lib cfg f st = (None, st') \<and> zs_count st' = zs_count st)"
proof (cases "upload_content f = []")
  case True
  then show ?thesis by (simp add: zip_step_def)
next
  case False
  with assms obtain msg where m: "pil_open lib (upload_content f) = Inl msg"
    by (auto simp: unusable_def)
  show ?thesis
  proof (cases "b_pct cfg")
    case None
    then show ?thesis using False m
      by (auto simp: zip_step_def file_target_def process_bytes_def split: option.splits prod.splits)
  next
    case (Some p)
    then show ?thesis using False m by (simp add: zip_step_def file_target_def)
  qed
qed

lemma zip_loop_unusable:
  "\<forall>f\<in>set fs. unusable lib f \<Longrightarrow>
     (\<exists>d st'. zip_loop lib cfg fs st = (Some (HTTPException 400 d), st'))
     \<or> (\<exists>st'. zip_loop lib cfg fs st = (None, st') \<and> zs_count st' = zs_count st)"
proof (induction fs arbitrary: st)
  case Nil
  then show ?case by simp
next
  case (Cons f fs)
  from Cons.prems have u: "unusable lib f" and rest: "\<forall>f\<in>set fs. unusable lib f" by simp_all
  from zip_step_unusable[OF u, of cfg st] show ?case
  proof
    assume "\<exists>d st'. zip_step lib cfg f st = (Some (HTTPException 400 d), st')"
    then show ?thesis by auto
  next
    assume "\<exists>st'. zip_step lib cfg f st = (None, st') \<and> zs_count st' = zs_count st"
    then obtain st1 where s: "zip_step lib cfg f st = (None, st1)" "zs_count st1 = zs_count st"
      by blast
    from Cons.IH[OF rest, of st1] show ?thesis using s by auto
  qed
qed

text \<open>
  Claim C9. When every uploaded file is empty or cannot be decoded, the batch endpoint
  raises an HTTP 400 exception, whatever the preset, the dimensions and the format: the
  files are skipped and the final count is zero, or the first undecodable file raises the
  400 of \<open>_process_bytes\<close>. And a response, when there is one, never carries an empty
  archive.
\<close>

theorem empty_batch_is_rejected:
  "((\<forall>f\<in>set files. upload_content f = [] \<or> (\<exists>msg. pil_open lib (upload_content f) = Inl msg))
      \<longrightarrow> (\<exists>detail tr. process_zip lib files width height preset keep_ratio quality out_format
                = (Inl (HTTPException 400 detail), tr)))
   \<and> (\<forall>resp tr. process_zip lib files width height preset keep_ratio quality out_format
          = (Inr resp, tr)
        \<longrightarrow> (\<exists>es. content resp = ZipArchive es \<and> es \<noteq> []))"
proof (intro conjI impI allI)
  assume a: "\<forall>f\<in>set files. upload_content f = [] \<or> (\<exists>msg. pil_open lib (upload_content f) = Inl msg)"
  then have u: "\<forall>f\<in>set files. unusable lib f" by (simp add: unusable_def)
  show "\<exists>detail tr. process_zip lib files width height preset keep_ratio quality out_format
          = (Inl (HTTPException 400 detail), tr)"
  proof (cases "files = [] \<or> normalize_format out_format = []")
    case True
    then show ?thesis by (auto simp: process_zip_def bad_format_def)
  next
    case False
    obtain pct fixed where pp: "parse_preset preset = (pct, fixed)" by (cases "parse_preset preset")
    define cfg where "cfg = \<lparr>b_pct = pct, b_fixed = fixed, b_w = parse_int width,
      b_h = parse_int height, b_keep_ratio = keep_ratio, b_quality = quality,
      b_out_fmt = normalize_format out_format\<rparr>"
    define st0 where "st0 = \<lparr>zs_entries = [], zs_count = 0, zs_events = []\<rparr>"
    from zip_loop_unusable[OF u, of cfg st0] show ?thesis
    proof
      assume "\<exists>d st'. zip_loop lib cfg files st0 = (Some (HTTPException 400 d), st')"
      then show ?thesis using False pp
        by (auto simp: process_zip_def Let_def cfg_def st0_def)
    next
      assume "\<exists>st'. zip_loop lib cfg files st0 = (None, st') \<and> zs_count st' = zs_count st0"
      then show ?thesis using False pp
        by (auto simp: process_zip_def Let_def cfg_def st0_def)
    qed
  qed
next
  fix resp tr
  assume r: "process_zip lib files width height preset keep_ratio quality out_format = (Inr resp, tr)"
  obtain pct fixed where pp: "parse_preset preset = (pct, fixed)" by (cases "parse_preset preset")
  define cfg where "cfg = \<lparr>b_pct = pct, b_fixed = fixed, b_w = parse_int width,
      b_h = parse_int height, b_keep_ratio = keep_ratio, b_quality = quality,
      b_out_fmt = normalize_format out_format\<rparr>"
  define st0 where "st0 = \<lparr>zs_entries = [], zs_count = 0, zs_events = []\<rparr>"
  obtain r1 st1 where l: "zip_loop lib cfg files st0 = (r1, st1)"
    by (cases "zip_loop lib cfg files st0")
  have c: "zs_count st1 = length (zs_entries st1)"
    using zip_loop_count[OF l] by (simp add: st0_def)
  show "\<exists>es. content resp = ZipArchive es \<and> es \<noteq> []"
    using r pp l c
    by (auto simp: process_zip_def Let_def cfg_def[symmetric] st0_def[symmetric]
        split: if_splits option.splits)
qed

lemmas string_eval = strip_def strip_chars_def is_space_def lower_def lower_char_def
  upper_letters_def lower_letters_def digit_chars_def is_digit_def is_alnum_def digit_val_def
  py_int_def py_unsigned_def is_int_space_def int_max_str_digits_def

lemmas request_eval = process_zip_def process_single_def normalize_format_def parse_int_def
  parse_preset_def zip_step_def file_target_def process_bytes_def log_events_def Let_def
  validate_dims_def validate_dim_def bad_format_def

lemmas demo_eval = demo_pil_def demo_open_def demo_image_def

theorem empty_batch_is_rejected_witness:
  "\<exists>detail tr. process_zip demo_pil
     [\<lparr>upload_filename = Some ''a.png'', upload_content = []\<rparr>,
      \<lparr>upload_filename = Some ''b.png'', upload_content = [1]\<rparr>,
      \<lparr>upload_filename = None, upload_content = []\<rparr>]
     None None (Some ''50%'') True 85 ''jpeg'' = (Inl (HTTPException 400 detail), tr)"
  using empty_batch_is_rejected[of "[\<lparr>upload_filename = Some ''a.png'', upload_content = []\<rparr>,
      \<lparr>upload_filename = Some ''b.png'', upload_content = [1]\<rparr>,
      \<lparr>upload_filename = None, upload_content = []\<rparr>]" demo_pil None None "Some ''50%''" True 85 "''jpeg''"]
  by (simp add: demo_eval)

text \<open>
  Claim C2, on the code as it is. Only the percentage branch of the loop catches a
  decoding failure and continues. Without a percentage preset the loop calls
  \<open>_process_bytes\<close> unguarded, whose HTTP 400 for an undecodable file leaves the handler:
  here the first upload is not an image, the second is, and the request fails as a whole
  after one read and one decode, the valid file never being read.
\<close>

theorem batch_aborts_on_undecodable_file:
  "process_zip demo_pil
     [\<lparr>upload_filename = Some ''broken.png'', upload_content = [1]\<rparr>,
      \<lparr>upload_filename = Some ''photo.png'', upload_content = [8, 6]\<rparr>]
     None None None True 85 ''jpeg''
   = (Inl (HTTPException 400 ''Could not read image: cannot identify image file''),
      [ReadUpload, DecodeImage])"
  by (simp add: request_eval string_eval demo_eval)

section \<open>The preset token\<close>

lemma py_digits_chars:
  "py_digits acc s = Some n \<Longrightarrow> c \<in> set s \<Longrightarrow> is_digit c \<or> c = CHR ''_''"
  by (induction acc s arbitrary: n rule: py_digits.induct) (auto split: if_splits)

lemma py_unsigned_chars:
  "py_unsigned s = Some n \<Longrightarrow> c \<in> set s \<Longrightarrow> is_digit c \<or> c = CHR ''_''"
  unfolding py_unsigned_def
  by (cases s) (auto split: if_splits dest: py_digits_chars)

lemma strip_chars_cover: "c \<in> set s \<Longrightarrow> P c \<or> c \<in> set (strip_chars P s)"
proof -
  assume c: "c \<in> set s"
  define t where "t = dropWhile P s"
  have s: "s = takeWhile P s @ t" by (simp add: t_def)
  have t: "t = strip_chars P s @ rev (takeWhile P (rev t))"
    unfolding strip_chars_def t_def by (metis rev_append rev_rev_ident takeWhile_dropWhile_id)
  from c s have "c \<in> set (takeWhile P s) \<or> c \<in> set t" by (metis Un_iff set_append)
  moreover have "c \<in> set t \<Longrightarrow> c \<in> set (strip_chars P s) \<or> c \<in> set (takeWhile P (rev t))"
    using t by (metis Un_iff set_append set_rev)
  ultimately show ?thesis by (auto dest: set_takeWhileD)
qed

lemma int_space_is_space: "is_int_space c \<Longrightarrow> is_space c"
  by (auto simp: is_int_space_def is_space_def)

lemma py_int_chars: "py_int v = Some n \<Longrightarrow> c \<in> set v \<Longrightarrow> int_char c"
proof -
  assume p: "py_int v = Some n" and c: "c \<in> set v"
  define t where "t = strip_chars is_int_space v"
  have "is_int_space c \<or> c \<in> set t"
    using strip_chars_cover[OF c, of is_int_space] by (simp add: t_def)
  moreover have "int_char c" if m: "c \<in> set t"
  proof (cases t)
    case Nil
    with m show ?thesis by simp
  next
    case (Cons a cs)
    show ?thesis
    proof (cases "c \<in> set cs")
      case True
      then show ?thesis using p Cons
        by (auto simp: py_int_def t_def[symmetric] int_char_def split: if_splits
            dest: py_unsigned_chars)
    next
      case False
      then have "c = a" using m Cons by simp
      then show ?thesis using p Cons
        by (auto simp: py_int_def t_def[symmetric] int_char_def split: if_splits
            dest: py_unsigned_chars)
    qed
  qed
  ultimately show ?thesis using int_space_is_space by (auto simp: int_char_def)
qed

lemma lower_char_cases: "lower_char c = c \<or> lower_char c \<in> set lower_letters"
proof (cases "map_of (zip upper_letters lower_letters) c")
  case None
  then show ?thesis by (simp add: lower_char_def)
next
  case (Some d)
  then have "(c, d) \<in> set (zip upper_letters lower_letters)" by (rule map_of_SomeD)
  then have "d \<in> set lower_letters" by (rule set_zip_rightD)
  then show ?thesis using Some by (simp add: lower_char_def)
qed

lemma lower_letters_not_int_char: "\<forall>d\<in>set lower_letters. \<not> int_char d"
  by (simp add: lower_letters_def int_char_def is_space_def is_digit_def digit_chars_def)

lemma lower_char_int_char: "int_char (lower_char c) \<Longrightarrow> lower_char c = c"
  using lower_char_cases[of c] lower_letters_not_int_char by blast

lemma x_not_int_char: "\<not> int_char (CHR ''x'')"
  by (simp add: int_char_def is_space_def is_digit_def digit_chars_def)

lemma lower_char_x: "lower_char (CHR ''x'') = CHR ''x''"
  by (simp add: lower_char_def upper_letters_def lower_letters_def)

lemma lower_int_chars: "\<forall>c\<in>set (lower s). int_char c \<Longrightarrow> lower s = s"
proof (induction s)
  case Nil
  then show ?case by (simp add: lower_def)
next
  case (Cons a s)
  then have "int_char (lower_char a)" "\<forall>c\<in>set (lower s). int_char c" by (simp_all add: lower_def)
  then have "lower_char a = a" "lower s = s" using Cons.IH lower_char_int_char by blast+
  then show ?case by (simp add: lower_def)
qed

lemma parse_preset_None: "parse_preset None = (None, None)"
  by (simp add: parse_preset_def strip_def strip_chars_def)

lemma split_at_x:
  assumes "CHR ''x'' \<in> set l"
  shows "l = takeWhile (\<lambda>c. c \<noteq> CHR ''x'') l @ CHR ''x'' # drop 1 (dropWhile (\<lambda>c. c \<noteq> CHR ''x'') l)"
proof -
  have "dropWhile (\<lambda>c. c \<noteq> CHR ''x'') l \<noteq> []" using assms by (simp add: dropWhile_eq_Nil_conv)
  then obtain d ds where d: "dropWhile (\<lambda>c. c \<noteq> CHR ''x'') l = d # ds"
    by (cases "dropWhile (\<lambda>c. c \<noteq> CHR ''x'') l") auto
  then have "d = CHR ''x''" using hd_dropWhile[of "\<lambda>c. c \<noteq> CHR ''x''" l] by auto
  then show ?thesis using d takeWhile_dropWhile_id[of "\<lambda>c. c \<noteq> CHR ''x''" l] by simp
qed

lemma fixed_token_from_lower:
  assumes x: "CHR ''x'' \<in> set t"
    and a: "py_int (takeWhile (\<lambda>c. c \<noteq> CHR ''x'') (lower t)) = Some m"
    and b: "py_int (drop 1 (dropWhile (\<lambda>c. c \<noteq> CHR ''x'') (lower t))) = Some n"
  shows "py_int (takeWhile (\<lambda>c. c \<noteq> CHR ''x'') t) = Some m
       \<and> py_int (drop 1 (dropWhile (\<lambda>c. c \<noteq> CHR ''x'') t)) = Some n"
proof -
  define a' where "a' = takeWhile (\<lambda>c. c \<noteq> CHR ''x'') (lower t)"
  define b' where "b' = drop 1 (dropWhile (\<lambda>c. c \<noteq> CHR ''x'') (lower t))"
  have "CHR ''x'' \<in> set (lower t)"
    using x lower_char_x by (force simp: lower_def)
  from split_at_x[OF this] have l: "map lower_char t = a' @ CHR ''x'' # b'"
    by (simp add: a'_def b'_def lower_def)
  then obtain ta tr where t1: "t = ta @ tr" "map lower_char ta = a'" "map lower_char tr = CHR ''x'' # b'"
    by (auto simp: map_eq_append_conv)
  then obtain c tb where t2: "tr = c # tb" "lower_char c = CHR ''x''" "map lower_char tb = b'"
    by (auto simp: map_eq_Cons_conv)
  have ia: "\<forall>c\<in>set a'. int_char c" using py_int_chars[OF a] by (simp add: a'_def)
  have ib: "\<forall>c\<in>set b'. int_char c" using py_int_chars[OF b] by (simp add: b'_def)
  have ta: "ta = a'" using lower_int_chars[of ta] ia t1(2) by (simp add: lower_def)
  have tb: "tb = b'" using lower_int_chars[of tb] ib t2(3) by (simp add: lower_def)
  have xa: "CHR ''x'' \<notin> set a'" and xb: "CHR ''x'' \<notin> set b'"
    using ia ib x_not_int_char by blast+
  have "c = CHR ''x''" using x t1(1) t2(1) ta tb xa xb by auto
  then have t: "t = a' @ CHR ''x'' # b'" using t1(1) t2(1) ta tb by simp
  have na: "\<And>c. c \<in> set a' \<Longrightarrow> c \<noteq> CHR ''x''" using xa by blast
  have "takeWhile (\<lambda>c. c \<noteq> CHR ''x'') t = a'"
    unfolding t using na by (simp add: takeWhile_append2)
  moreover have "dropWhile (\<lambda>c. c \<noteq> CHR ''x'') t = CHR ''x'' # b'"
    unfolding t using na by (simp add: dropWhile_append2)
  moreover have "py_int a' = Some m" "py_int b' = Some n"
    unfolding a'_def b'_def using a b by blast+
  ultimately show ?thesis by simp
qed

lemma parse_preset_malformed:
  assumes "\<not> is_percent_token p" "\<not> is_fixed_token p"
  shows "parse_preset (Some p) = (None, None)"
proof -
  define t where "t = strip p"
  show ?thesis
  proof (cases "t \<noteq> [] \<and> last t = CHR ''%''")
    case True
    then show ?thesis using assms(1)
      by (auto simp: parse_preset_def is_percent_token_def Let_def t_def[symmetric] split: option.splits)
  next
    case False
    show ?thesis
    proof (cases "CHR ''x'' \<in> set t")
      case x: True
      have "\<not> (\<exists>m n. py_int (takeWhile (\<lambda>c. c \<noteq> CHR ''x'') (lower t)) = Some m
              \<and> py_int (drop 1 (dropWhile (\<lambda>c. c \<noteq> CHR ''x'') (lower t))) = Some n)"
      proof
        assume "\<exists>m n. py_int (takeWhile (\<lambda>c. c \<noteq> CHR ''x'') (lower t)) = Some m
              \<and> py_int (drop 1 (dropWhile (\<lambda>c. c \<noteq> CHR ''x'') (lower t))) = Some n"
        then obtain m n where "py_int (takeWhile (\<lambda>c. c \<noteq> CHR ''x'') (lower t)) = Some m"
          "py_int (drop 1 (dropWhile (\<lambda>c. c \<noteq> CHR ''x'') (lower t))) = Some n" by blast
        from fixed_token_from_lower[OF x this] have "is_fixed_token p"
          using x by (simp add: is_fixed_token_def Let_def t_def[symmetric])
        with assms(2) show False by simp
      qed
      then show ?thesis using False x
        by (auto simp: parse_preset_def Let_def t_def[symmetric] split: option.splits)
    next
      case False
      then show ?thesis using \<open>\<not> (t \<noteq> [] \<and> last t = CHR ''%'')\<close>
        by (auto simp: parse_preset_def Let_def t_def[symmetric])
    qed
  qed
qed

text \<open>
  Claim C3, on the code as it is. The percentage branch drops a number that is not
  positive (\<open>0%\<close> gives no preset), and both branches swallow every parse error; the
  fixed branch alone lacks the check. The token \<open>0x600\<close> is not a percentage and its
  dimensions are not both positive, yet the handler keeps it as the fixed preset
  \<open>(0, 600)\<close>, and \<open>_process_bytes\<close> then raises HTTP 400 because of the token, while
  the same request without a preset succeeds.
\<close>

theorem nonpositive_fixed_preset_is_rejected:
  "parse_preset (Some ''0%'') = (None, None)
   \<and> \<not> is_percent_token ''0x600'' \<and> parse_preset (Some ''0x600'') = (None, Some (0, 600))
   \<and> process_zip demo_pil [\<lparr>upload_filename = Some ''photo.png'', upload_content = [8, 6]\<rparr>]
        None None (Some ''0x600'') True 85 ''jpeg''
      = (Inl (HTTPException 400 ''Width/Height must be positive.''), [ReadUpload, DecodeImage])
   \<and> (\<exists>resp tr. process_zip demo_pil [\<lparr>upload_filename = Some ''photo.png'', upload_content = [8, 6]\<rparr>]
        None None None True 85 ''jpeg'' = (Inr resp, tr))"
  by (simp add: request_eval string_eval demo_eval is_percent_token_def
      resize_image_def prepare_for_format_def save_image_def entry_name_def)

text \<open>
  The rest of claim C3 holds of the code. A token that is neither an integer above zero
  followed by a percent sign nor two integers around an \<open>x\<close> is ignored: the handler
  computes no preset from it and the request gets exactly the response it gets without
  the preset field. Only a token of two integers that are not both positive (or exceed
  the maximal dimension) escapes, as above.
\<close>

theorem malformed_preset_is_ignored:
  assumes "\<not> is_percent_token p" "\<not> is_fixed_token p"
  shows "parse_preset (Some p) = (None, None)
       \<and> process_zip lib files width height (Some p) keep_ratio quality out_format
           = process_zip lib files width height None keep_ratio quality out_format"
proof -
  have a: "parse_preset (Some p) = (None, None)" by (rule parse_preset_malformed[OF assms])
  show ?thesis unfolding process_zip_def a parse_preset_None by simp
qed


theorem malformed_preset_is_ignored_witness:
  "parse_preset (Some ''-5%'') = (None, None)
   \<and> process_zip demo_pil [\<lparr>upload_filename = Some ''photo.png'', upload_content = [8, 6]\<rparr>]
        None None (Some ''-5%'') True 85 ''jpeg''
     = process_zip demo_pil [\<lparr>upload_filename = Some ''photo.png'', upload_content = [8, 6]\<rparr>]
        None None None True 85 ''jpeg''"
proof -
  have "\<not> is_percent_token ''-5%''" "\<not> is_fixed_token ''-5%''"
    by (simp_all add: is_percent_token_def is_fixed_token_def string_eval)
  from malformed_preset_is_ignored[OF this] show ?thesis by blast
qed

section \<open>Percentage presets\<close>

lemma fourth_bounds:
  "(1 + 1 / 2 ^ 53) * ((1 + 1 / 2 ^ 53) * ((1 + 1 / 2 ^ 53) * (1 + 1 / 2 ^ 53))) \<le> (1 + 1 / 2 ^ 50 :: rat)"
  "(1 - 1 / 2 ^ 50 :: rat) \<le> (1 - 1 / 2 ^ 53) * ((1 - 1 / 2 ^ 53) * ((1 - 1 / 2 ^ 53) * (1 - 1 / 2 ^ 53)))"
  by simp_all

lemma round_of_hundredths:
  assumes "\<bar>p - of_int k / 100\<bar> < 1 / 100"
  shows "\<bar>of_int (py_round p) - of_int k / 100\<bar> \<le> (1 / 2 :: rat)"
proof -
  define r where "r = py_round p"
  have "\<bar>of_int r - p\<bar> \<le> 1 / 2" unfolding r_def by (rule py_round_error)
  then have "\<bar>of_int r - of_int k / 100\<bar> < (51 / 100 :: rat)" using assms by linarith
  then have "\<bar>100 * of_int r - of_int k\<bar> < (51 :: rat)" by (simp add: abs_less_iff field_simps)
  then have "\<bar>of_int (100 * r - k)\<bar> < (of_int 51 :: rat)" by simp
  then have "\<bar>100 * r - k\<bar> < 51" by (simp only: of_int_abs[symmetric] of_int_less_iff)
  then have "\<bar>100 * r - k\<bar> \<le> 50" by simp
  then have "\<bar>of_int (100 * r - k)\<bar> \<le> (of_int 50 :: rat)" by (simp only: of_int_abs[symmetric] of_int_le_iff)
  then have "\<bar>100 * of_int r - of_int k\<bar> \<le> (50 :: rat)" by simp
  then show ?thesis unfolding r_def[symmetric] by (simp add: abs_le_iff field_simps)
qed

lemma sq_bounds:
  "(1 + 1 / 2 ^ 53) * (1 + 1 / 2 ^ 53) \<le> (2 :: rat)"
  "(1 / 2 :: rat) \<le> (1 - 1 / 2 ^ 53) * (1 - 1 / 2 ^ 53)"
  by simp_all

lemma pct_scale:
  assumes P: "1 \<le> P" "P \<le> 100000"
  shows "\<exists>s. (case float_of_int P of Inl e \<Rightarrow> Inl e | Inr x \<Rightarrow> float_truediv (Fin x) (Fin 100)) = Inr (Fin s)
           \<and> (1 - 1 / 2 ^ 53) * ((1 - 1 / 2 ^ 53) * (of_int P / 100)) \<le> s
           \<and> s \<le> (1 + 1 / 2 ^ 53) * ((1 + 1 / 2 ^ 53) * (of_int P / 100))"
proof -
  define a :: rat where "a = of_int P"
  define lo :: rat where "lo = 1 - 1 / 2 ^ 53"
  define hi :: rat where "hi = 1 + 1 / 2 ^ 53"
  have lohi: "1 / 2 \<le> lo" "0 \<le> lo" "hi \<le> 2" "0 \<le> hi" by (simp_all add: lo_def hi_def)
  have a: "1 \<le> a" "a \<le> 100000" using P by (simp_all add: a_def)
  have "\<bar>a\<bar> \<le> 2 ^ 17" using a by simp
  then have no1: "\<not> dbl_overflow \<le> \<bar>a\<bar>" using below_overflow[of a 17] by simp
  have an: "2 powi (- 1022) \<le> a" using normal_lower[of 0 a] a by simp
  define x where "x = fl a"
  have xb: "lo * a \<le> x" "x \<le> hi * a"
    unfolding x_def lo_def hi_def using fl_bounds[OF an] by simp_all
  have f1: "float_of_int P = Inr x" using no1 by (simp add: float_of_int_def a_def x_def)
  have "1 / 2 * a \<le> lo * a" using lohi(1) a by (intro mult_right_mono) simp_all
  then have x1: "1 / 2 \<le> x" using xb(1) a by linarith
  have "hi * a \<le> 2 * a" using lohi(3) a by (intro mult_right_mono) simp_all
  then have x2: "x \<le> 200000" using xb(2) a by linarith
  define y where "y = x / 100"
  have y: "1 / 200 \<le> y" "y \<le> 2000" using x1 x2 by (simp_all add: y_def)
  have "\<bar>y\<bar> \<le> 2 ^ 11" using y by simp
  then have no2: "\<not> dbl_overflow \<le> \<bar>y\<bar>" using below_overflow[of y 11] by simp
  have "(1 :: rat) / 2 ^ 8 \<le> 1 / 200" by simp
  then have "1 / 2 ^ 8 \<le> y" using y(1) by linarith
  then have yn: "2 powi (- 1022) \<le> y" using normal_lower[of 8 y] by simp
  define s where "s = fl y"
  have sb: "lo * y \<le> s" "s \<le> hi * y"
    unfolding s_def lo_def hi_def using fl_bounds[OF yn] by simp_all
  have d: "float_truediv (Fin x) (Fin 100) = Inr (Fin s)"
    using no2 by (simp add: float_truediv_def y_def[symmetric] s_def)
  have y1: "lo * a / 100 \<le> y" "y \<le> hi * a / 100"
    using xb by (simp_all add: y_def divide_right_mono)
  have "lo * (lo * a / 100) \<le> lo * y" by (rule mult_left_mono[OF y1(1) lohi(2)])
  moreover have "hi * y \<le> hi * (hi * a / 100)" by (rule mult_left_mono[OF y1(2) lohi(4)])
  moreover have "lo * (lo * a / 100) = lo * (lo * (a / 100))" "hi * (hi * a / 100) = hi * (hi * (a / 100))"
    by simp_all
  ultimately have "lo * (lo * (a / 100)) \<le> s" "s \<le> hi * (hi * (a / 100))" using sb by linarith+
  then show ?thesis using f1 d unfolding a_def lo_def hi_def by simp
qed

lemma pct_dim_nearest:
  assumes n: "1 \<le> n" "n \<le> 2 ^ 31" and P: "1 \<le> P" "P \<le> 100000"
  shows "\<exists>r. pct_dim n P = Inr (max 1 r)
           \<and> \<bar>of_int r - of_int (n * P) / 100\<bar> \<le> (1 / 2 :: rat)"
proof -
  define lo :: rat where "lo = 1 - 1 / 2 ^ 53"
  define hi :: rat where "hi = 1 + 1 / 2 ^ 53"
  define a :: rat where "a = of_int P"
  define b :: rat where "b = of_int n"
  define x where "x = b * a / 100"
  have lohi: "0 \<le> lo" "0 \<le> hi" by (simp_all add: lo_def hi_def)
  have a: "1 \<le> a" "a \<le> 100000" using P by (simp_all add: a_def)
  have "(of_int n :: rat) \<le> of_int (2 ^ 31)" using n(2) by (simp only: of_int_le_iff)
  then have b: "1 \<le> b" "b \<le> 2 ^ 31" using n(1) by (simp_all add: b_def)
  from pct_scale[OF P] obtain s where
    s: "(case float_of_int P of Inl e \<Rightarrow> Inl e | Inr x \<Rightarrow> float_truediv (Fin x) (Fin 100)) = Inr (Fin s)"
      "lo * (lo * (a / 100)) \<le> s" "s \<le> hi * (hi * (a / 100))"
    unfolding lo_def hi_def a_def by blast
  have e: "pct_dim n P = scaled_dim n (Fin s)"
    using s(1) by (auto simp: pct_dim_def split: sum.splits)
  have x0: "1 / 100 \<le> x"
  proof -
    have "1 * 1 \<le> b * a" using a(1) b(1) by (intro mult_mono) simp_all
    then show ?thesis by (simp add: x_def)
  qed
  have x1: "x \<le> 2 ^ 41"
  proof -
    have "b * a \<le> 2 ^ 31 * 100000" using a b by (intro mult_mono) simp_all
    then have "x \<le> 2 ^ 31 * 1000" by (simp add: x_def)
    then show ?thesis by simp
  qed
  have bpos: "0 \<le> b" using b(1) by linarith
  have "s * b \<le> hi * (hi * (a / 100)) * b" using s(3) bpos by (rule mult_right_mono)
  then have su: "s * b \<le> hi * (hi * x)" by (simp add: x_def mult_ac)
  have "lo * (lo * (a / 100)) * b \<le> s * b" using s(2) bpos by (rule mult_right_mono)
  then have sl: "lo * (lo * x) \<le> s * b" by (simp add: x_def mult_ac)
  have "hi * (hi * x) = (hi * hi) * x" by simp
  also have "\<dots> \<le> 2 * x" using sq_bounds(1) x0 unfolding hi_def by (intro mult_right_mono) simp_all
  finally have "s * b \<le> 2 ^ 42" using su x1 by simp
  then have s2: "s * of_int n \<le> 2 ^ 42" by (simp add: b_def)
  have "(1 / 2) * x \<le> (lo * lo) * x" using sq_bounds(2) x0 unfolding lo_def by (intro mult_right_mono) simp_all
  moreover have "(lo * lo) * x = lo * (lo * x)" by simp
  ultimately have "1 / 200 \<le> s * b" using sl x0 by linarith
  moreover have "s * b \<le> s * 2 ^ 31"
  proof -
    have "0 \<le> s" using s(2) lohi a
      by (meson order_trans mult_nonneg_nonneg divide_nonneg_nonneg zero_le_numeral zero_le_one)
    then show ?thesis using b(2) by (intro mult_left_mono)
  qed
  ultimately have "1 / 200 \<le> s * 2 ^ 31" by linarith
  then have "1 / 2 ^ 39 \<le> s" by (simp add: field_simps)
  moreover have "(1 :: rat) / 2 ^ 1010 \<le> 1 / 2 ^ 39"
    by (intro divide_left_mono power_increasing) simp_all
  ultimately have s1: "1 / 2 ^ 1010 \<le> s" by linarith
  have n2: "n \<le> 2 ^ 1000"
  proof -
    have "(2 :: int) ^ 31 \<le> 2 ^ 1000" by (intro power_increasing) simp_all
    with n(2) show ?thesis by linarith
  qed
  from scaled_dim_value[OF n(1) n2 s1 s2] obtain p where
    p: "scaled_dim n (Fin s) = Inr (max 1 (py_round p))"
      "lo * (lo * (s * b)) \<le> p" "p \<le> hi * (hi * (s * b))"
    unfolding lo_def hi_def b_def by blast
  have "hi * (hi * (s * b)) \<le> hi * (hi * (hi * (hi * x)))"
    using su lohi by (intro mult_left_mono)
  also have "\<dots> = (hi * (hi * (hi * hi))) * x" by simp
  also have "\<dots> \<le> (1 + 1 / 2 ^ 50) * x"
    using fourth_bounds(1) x0 unfolding hi_def by (intro mult_right_mono) simp_all
  finally have "hi * (hi * (s * b)) \<le> (1 + 1 / 2 ^ 50) * x" .
  moreover have "(1 + 1 / 2 ^ 50) * x = x + x / 2 ^ 50" by (simp add: algebra_simps)
  ultimately have pu: "p \<le> x + x / 2 ^ 50" using p(3) by linarith
  have "lo * (lo * (lo * (lo * x))) \<le> lo * (lo * (s * b))"
    using sl lohi by (intro mult_left_mono)
  moreover have "lo * (lo * (lo * (lo * x))) = (lo * (lo * (lo * lo))) * x" by simp
  moreover have "(1 - 1 / 2 ^ 50) * x \<le> (lo * (lo * (lo * lo))) * x"
    using fourth_bounds(2) x0 unfolding lo_def by (intro mult_right_mono) simp_all
  moreover have "(1 - 1 / 2 ^ 50) * x = x - x / 2 ^ 50" by (simp add: algebra_simps)
  ultimately have pl: "x - x / 2 ^ 50 \<le> p" using p(2) by linarith
  have "x / 2 ^ 50 \<le> 2 ^ 41 / 2 ^ 50" using x1 by (intro divide_right_mono) simp_all
  moreover have "(2 :: rat) ^ 41 / 2 ^ 50 < 1 / 100" by simp
  ultimately have "\<bar>p - x\<bar> < 1 / 100" using pu pl by linarith
  moreover have "x = of_int (n * P) / 100" by (simp add: x_def a_def b_def)
  ultimately have "\<bar>p - of_int (n * P) / 100\<bar> < 1 / 100" by simp
  from round_of_hundredths[OF this] show ?thesis using e p(1) by auto
qed

lemma hundredths_int:
  assumes "\<bar>of_int r - of_int k / 100\<bar> \<le> (1 / 2 :: rat)"
  shows "- 50 \<le> 100 * r - k" "100 * r - k \<le> 50"
proof -
  from assms have "\<bar>100 * of_int r - of_int k\<bar> \<le> (50 :: rat)" by (simp add: abs_le_iff field_simps)
  then have "\<bar>of_int (100 * r - k)\<bar> \<le> (of_int 50 :: rat)" by simp
  then have "\<bar>100 * r - k\<bar> \<le> 50" by (simp only: of_int_abs[symmetric] of_int_le_iff)
  then show "- 50 \<le> 100 * r - k" "100 * r - k \<le> 50" by (simp_all add: abs_le_iff)
qed

lemma nearest_unique:
  assumes a: "\<bar>of_int r - of_int k / 100\<bar> \<le> (1 / 2 :: rat)"
    and b: "\<bar>of_int r' - of_int k / 100\<bar> \<le> (1 / 2 :: rat)"
    and k: "k mod 100 \<noteq> 50"
  shows "r = r'"
proof (rule ccontr)
  assume ne: "r \<noteq> r'"
  note a2 = hundredths_int[OF a] and b2 = hundredths_int[OF b]
  have "r' \<le> r + 1" "r - 1 \<le> r'" using a2 b2 by linarith+
  then consider "r' = r + 1" | "r' = r - 1" using ne by linarith
  then have "k mod 100 = 50"
  proof cases
    case 1
    then have "k = 100 * r + 50" using a2 b2 by linarith
    then show ?thesis by simp
  next
    case 2
    then have "k = 100 * r' + 50" using a2 b2 by linarith
    then show ?thesis by simp
  qed
  with k show False by simp
qed

text \<open>
  Claim C7 as stated fails on the rounding. The handler forms the product in double
  precision, \<open>ow * (pct / 100.0)\<close>, and \<open>pct / 100.0\<close> is already rounded: for a width
  of 150 at 7 percent the double product lies just above 10.5 and the target is 11, where
  \<open>round\<close> of the exact 10.5 is 10; for 50 at 29 percent it lies just below 14.5 and
  the target is 14, where rounding the exact half upwards gives 15. So no rounding of the
  exact product agrees with the code on every input.
\<close>

theorem percentage_rounding_counterexample:
  "file_target demo_pil (Some 7) None None None [15, 5] = Use (Some 11) (Some 4)
   \<and> max 1 (py_round (of_int (150 * 7) / 100)) = 10
   \<and> file_target demo_pil (Some 29) None None None [5, 5] = Use (Some 14) (Some 14)
   \<and> max 1 \<lfloor>of_int (50 * 29) / 100 + 1 / 2 :: rat\<rfloor> = 15"
  by (simp add: file_target_def pct_dim_def demo_eval float_eval)

text \<open>
  Claim C7, amended. With a percentage preset \<open>P\<close> the pair \<open>(use_w, use_h)\<close> of a file
  is computed from the size of that file alone, each axis on its own: it is
  \<open>max 1 r\<close> for an integer \<open>r\<close> nearest to \<open>original * P / 100\<close> (at most one half
  away), and \<open>r\<close> is \<open>round (original * P / 100)\<close> whenever that product is not an exact
  half. Sizes are bounded by \<open>2^31\<close> and the percentage by 100000, which keeps the
  product far below the precision of a double. The examples of the specification, 800
  by 600 and 1000 by 1000 at 50 percent, and 800 by 600 at 25 percent, are the witness.
\<close>

theorem percentage_target_per_file:
  assumes "pil_open lib data = Inr im" "img_size im = (ow, oh)"
    and "1 \<le> ow" "ow \<le> 2 ^ 31" "1 \<le> oh" "oh \<le> 2 ^ 31" "1 \<le> P" "P \<le> 100000"
  shows "\<exists>rw rh. file_target lib (Some P) fixed w h data = Use (Some (max 1 rw)) (Some (max 1 rh))
           \<and> \<bar>of_int rw - of_int (ow * P) / 100\<bar> \<le> (1 / 2 :: rat)
           \<and> \<bar>of_int rh - of_int (oh * P) / 100\<bar> \<le> (1 / 2 :: rat)
           \<and> ((ow * P) mod 100 \<noteq> 50 \<longrightarrow> rw = py_round (of_int (ow * P) / 100))
           \<and> ((oh * P) mod 100 \<noteq> 50 \<longrightarrow> rh = py_round (of_int (oh * P) / 100))"
proof -
  from pct_dim_nearest[OF assms(3,4,7,8)] obtain rw where
    rw: "pct_dim ow P = Inr (max 1 rw)" "\<bar>of_int rw - of_int (ow * P) / 100\<bar> \<le> (1 / 2 :: rat)"
    by blast
  from pct_dim_nearest[OF assms(5,6,7,8)] obtain rh where
    rh: "pct_dim oh P = Inr (max 1 rh)" "\<bar>of_int rh - of_int (oh * P) / 100\<bar> \<le> (1 / 2 :: rat)"
    by blast
  have t: "file_target lib (Some P) fixed w h data = Use (Some (max 1 rw)) (Some (max 1 rh))"
    using assms(1,2) rw(1) rh(1) by (simp add: file_target_def)
  have uw: "rw = py_round (of_int (ow * P) / 100)" if "(ow * P) mod 100 \<noteq> 50"
    using nearest_unique[OF rw(2) _ that] py_round_error by blast
  have uh: "rh = py_round (of_int (oh * P) / 100)" if "(oh * P) mod 100 \<noteq> 50"
    using nearest_unique[OF rh(2) _ that] py_round_error by blast
  show ?thesis using t rw(2) rh(2) uw uh by blast
qed

theorem percentage_target_per_file_witness:
  "file_target demo_pil (Some 50) None None None [80, 60] = Use (Some 400) (Some 300)
   \<and> file_target demo_pil (Some 50) None None None [100, 100] = Use (Some 500) (Some 500)
   \<and> file_target demo_pil (Some 25) None None None [80, 60] = Use (Some 200) (Some 150)"
proof -
  have b: "(800 :: int) \<le> 2 ^ 31" "(600 :: int) \<le> 2 ^ 31" "(1000 :: int) \<le> 2 ^ 31" by simp_all
  have o1: "pil_open demo_pil [80, 60] = Inr \<lparr>img_size = (800, 600), img_mode = ''RGB'',
      img_transparency = False, img_raster = [80, 60]\<rparr>"
    and o2: "pil_open demo_pil [100, 100] = Inr \<lparr>img_size = (1000, 1000), img_mode = ''RGB'',
      img_transparency = False, img_raster = [100, 100]\<rparr>"
    by (simp_all add: demo_eval)
  have r: "py_round 400 = 400" "py_round 300 = 300" "py_round 500 = 500" "py_round 200 = 200"
    "py_round 150 = 150"
    by (simp_all add: py_round_def)
  show ?thesis
    using percentage_target_per_file[OF o1, of 800 600 50 None None None]
      percentage_target_per_file[OF o2, of 1000 1000 50 None None None]
      percentage_target_per_file[OF o1, of 800 600 25 None None None] b r
    by auto
qed

section \<open>Archive entry names\<close>

lemma str_nat_nonempty: "str_nat n \<noteq> []"
  by (subst str_nat.simps) simp

lemma digit_chars_inj: "m < 10 \<Longrightarrow> n < 10 \<Longrightarrow> digit_chars ! m = digit_chars ! n \<Longrightarrow> m = n"
proof -
  assume a: "m < 10" "n < 10" "digit_chars ! m = digit_chars ! n"
  have "distinct digit_chars" "length digit_chars = 10" by (simp_all add: digit_chars_def)
  then show ?thesis using a by (simp add: nth_eq_iff_index_eq)
qed

lemma str_nat_inj: "str_nat m = str_nat n \<Longrightarrow> m = n"
proof (induction m arbitrary: n rule: str_nat.induct)
  case (1 m)
  show ?case
  proof (cases "m < 10")
    case True
    then have m: "str_nat m = [digit_chars ! m]" by (subst str_nat.simps) simp
    show ?thesis
    proof (cases "n < 10")
      case n: True
      then have "str_nat n = [digit_chars ! n]" by (subst str_nat.simps) simp
      with m "1.prems" True n show ?thesis by (simp add: digit_chars_inj)
    next
      case n: False
      then have "str_nat n = str_nat (n div 10) @ [digit_chars ! (n mod 10)]"
        by (subst str_nat.simps) simp
      with m "1.prems" str_nat_nonempty[of "n div 10"] show ?thesis by auto
    qed
  next
    case False
    then have m: "str_nat m = str_nat (m div 10) @ [digit_chars ! (m mod 10)]"
      by (subst str_nat.simps) simp
    show ?thesis
    proof (cases "n < 10")
      case n: True
      then have "str_nat n = [digit_chars ! n]" by (subst str_nat.simps) simp
      with m "1.prems" str_nat_nonempty[of "m div 10"] show ?thesis by auto
    next
      case n: False
      then have "str_nat n = str_nat (n div 10) @ [digit_chars ! (n mod 10)]"
        by (subst str_nat.simps) simp
      with m "1.prems" have e: "str_nat (m div 10) = str_nat (n div 10)"
        "digit_chars ! (m mod 10) = digit_chars ! (n mod 10)" by simp_all
      from "1.IH"[OF False e(1)] have "m div 10 = n div 10" .
      moreover have "m mod 10 = n mod 10" using e(2) by (intro digit_chars_inj) simp_all
      ultimately show ?thesis by (metis div_mult_mod_eq)
    qed
  qed
qed

lemma zip_step_entries:
  assumes "zip_step lib cfg f st = (None, st')"
  shows "if unusable lib f
         then zs_entries st' = zs_entries st \<and> zs_count st' = zs_count st
         else (\<exists>out. zs_entries st' = zs_entries st
                 @ [(entry_name (b_out_fmt cfg) (map fst (zs_entries st)) (zs_count st) f, out)])
              \<and> zs_count st' = zs_count st + 1"
proof (cases "upload_content f = []")
  case True
  then show ?thesis using assms by (auto simp: zip_step_def unusable_def)
next
  case False
  show ?thesis
  proof (cases "pil_open lib (upload_content f)")
    case (Inl msg)
    then have u: "unusable lib f" by (simp add: unusable_def)
    show ?thesis using assms False Inl u
      by (auto simp: zip_step_def file_target_def process_bytes_def Let_def
          split: option.splits prod.splits)
  next
    case (Inr im)
    then have u: "\<not> unusable lib f" using False by (simp add: unusable_def)
    have ns: "file_target lib (b_pct cfg) (b_fixed cfg) (b_w cfg) (b_h cfg) (upload_content f) \<noteq> Skip"
      using Inr by (auto simp: file_target_def split: option.splits sum.splits prod.splits)
    show ?thesis using assms False u ns
      by (auto simp: zip_step_def Let_def split: target.splits sum.splits prod.splits)
  qed
qed

lemma zip_loop_entries:
  "zip_loop lib cfg fs st = (None, st') \<Longrightarrow> zs_count st = length (zs_entries st)
   \<Longrightarrow> length (zs_entries st) = length ks
   \<Longrightarrow> (\<forall>j<length ks. map fst (zs_entries st) ! j
          = entry_name (b_out_fmt cfg) (take j (map fst (zs_entries st))) j (ks ! j))
   \<Longrightarrow> zs_count st' = length (zs_entries st')
       \<and> length (zs_entries st') = length (ks @ filter (\<lambda>f. \<not> unusable lib f) fs)
       \<and> (\<forall>j<length (ks @ filter (\<lambda>f. \<not> unusable lib f) fs). map fst (zs_entries st') ! j
            = entry_name (b_out_fmt cfg) (take j (map fst (zs_entries st'))) j
                ((ks @ filter (\<lambda>f. \<not> unusable lib f) fs) ! j))"
proof (induction fs arbitrary: st ks)
  case Nil
  then show ?case by simp
next
  case (Cons f fs)
  obtain r1 st1 where s: "zip_step lib cfg f st = (r1, st1)" by (cases "zip_step lib cfg f st")
  with Cons.prems(1) have r1: "r1 = None" by (cases r1) auto
  with s Cons.prems(1) have l: "zip_loop lib cfg fs st1 = (None, st')" by simp
  note e = zip_step_entries[OF s[unfolded r1]]
  show ?case
  proof (cases "unusable lib f")
    case True
    with e have same: "zs_entries st1 = zs_entries st" "zs_count st1 = zs_count st" by simp_all
    have c1: "zs_count st1 = length (zs_entries st1)" using same Cons.prems(2) by simp
    have l1: "length (zs_entries st1) = length ks" using same Cons.prems(3) by simp
    have n1: "\<forall>j<length ks. map fst (zs_entries st1) ! j
          = entry_name (b_out_fmt cfg) (take j (map fst (zs_entries st1))) j (ks ! j)"
      using same Cons.prems(4) by simp
    have flt: "ks @ filter (\<lambda>f. \<not> unusable lib f) (f # fs) = ks @ filter (\<lambda>f. \<not> unusable lib f) fs"
      using True by simp
    from Cons.IH[OF l c1 l1 n1] show ?thesis unfolding flt .
  next
    case False
    with e obtain out where o: "zs_entries st1 = zs_entries st
        @ [(entry_name (b_out_fmt cfg) (map fst (zs_entries st)) (zs_count st) f, out)]"
      and c: "zs_count st1 = zs_count st + 1" by auto
    have c1: "zs_count st1 = length (zs_entries st1)" using o c Cons.prems(2) by simp
    have l1: "length (zs_entries st1) = length (ks @ [f])" using o Cons.prems(3) by simp
    have n1: "\<forall>j<length (ks @ [f]). map fst (zs_entries st1) ! j
          = entry_name (b_out_fmt cfg) (take j (map fst (zs_entries st1))) j ((ks @ [f]) ! j)"
    proof (intro allI impI)
      fix j assume j: "j < length (ks @ [f])"
      show "map fst (zs_entries st1) ! j
          = entry_name (b_out_fmt cfg) (take j (map fst (zs_entries st1))) j ((ks @ [f]) ! j)"
      proof (cases "j < length ks")
        case True
        then show ?thesis using Cons.prems(3,4) o by (simp add: nth_append)
      next
        case False
        then have "j = length ks" using j by simp
        then show ?thesis using Cons.prems(2,3) o by (simp add: nth_append)
      qed
    qed
    have flt: "ks @ filter (\<lambda>f. \<not> unusable lib f) (f # fs)
        = (ks @ [f]) @ filter (\<lambda>f. \<not> unusable lib f) fs"
      using False by simp
    from Cons.IH[OF l c1 l1 n1] show ?thesis unfolding flt .
  qed
qed

lemma names_distinct_same_base:
  assumes n: "\<forall>j<length ks. names ! j = entry_name fmt (take j names) j (ks ! j)"
    and len: "length names = length ks"
    and ij: "i < j" "j < length ks"
    and b: "base_name_of i (ks ! i) = base_name_of j (ks ! j)"
  shows "names ! i \<noteq> names ! j
       \<and> names ! j = base_name_of j (ks ! j) @ ''_'' @ str_nat (j + 1) @ format_ext fmt"
proof -
  define b0 where "b0 = base_name_of j (ks ! j)"
  define ext where "ext = format_ext fmt"
  have i: "i < length ks" using ij by simp
  have ni: "names ! i = (if b0 @ ext \<in> set (take i names) then b0 @ ''_'' @ str_nat (i + 1) @ ext
                         else b0 @ ext)"
    using n i b by (simp add: entry_name_def Let_def b0_def ext_def)
  have nj: "names ! j = (if b0 @ ext \<in> set (take j names) then b0 @ ''_'' @ str_nat (j + 1) @ ext
                         else b0 @ ext)"
    using n ij(2) by (simp add: entry_name_def Let_def b0_def ext_def)
  have "take j names ! i = names ! i" "i < length (take j names)" using ij len by simp_all
  then have mem: "names ! i \<in> set (take j names)" by (metis nth_mem)
  have sub: "set (take i names) \<subseteq> set (take j names)"
    using ij(1) by (intro set_take_subset_set_take) simp
  have c: "b0 @ ext \<in> set (take j names)"
  proof (cases "b0 @ ext \<in> set (take i names)")
    case True
    with sub show ?thesis by blast
  next
    case False
    with ni mem show ?thesis by simp
  qed
  with nj have j: "names ! j = b0 @ ''_'' @ str_nat (j + 1) @ ext" by simp
  have "names ! i \<noteq> names ! j"
  proof (cases "b0 @ ext \<in> set (take i names)")
    case True
    with ni have "names ! i = b0 @ ''_'' @ str_nat (i + 1) @ ext" by simp
    moreover have "str_nat (i + 1) \<noteq> str_nat (j + 1)" using ij(1) str_nat_inj[of "i + 1" "j + 1"] by auto
    ultimately show ?thesis using j by simp
  next
    case False
    with ni have "names ! i = b0 @ ext" by simp
    moreover have "length (b0 @ ext) \<noteq> length (b0 @ ''_'' @ str_nat (j + 1) @ ext)" by simp
    ultimately show ?thesis using j by metis
  qed
  with j show ?thesis by (simp add: b0_def ext_def)
qed

lemmas name_eval = entry_name_def base_name_of_def filename_or_def clean_filename_def
  last_component_def filename_char_def split_name_ext_def split_last_dot_def format_ext_def

lemma str_nat_small: "str_nat (Suc 0) = ''1''" "str_nat (Suc (Suc 0)) = ''2''" "str_nat 2 = ''2''"
  by (subst str_nat.simps, simp add: digit_chars_def)+

lemma n1: "entry_name ''jpeg'' [] 0 \<lparr>upload_filename = Some ''holiday.png'', upload_content = [80, 60]\<rparr> = ''holiday.jpg''"
  by (simp add: name_eval string_eval)

lemma n2: "entry_name ''jpeg'' [''holiday.jpg''] (Suc 0) \<lparr>upload_filename = Some ''C:/tmp/holiday.gif'', upload_content = [100, 100]\<rparr> = ''holiday_2.jpg''"
  by (simp add: name_eval string_eval str_nat_small)


lemma z1: "zip_step demo_pil \<lparr>b_pct = None, b_fixed = None, b_w = None, b_h = None,
      b_keep_ratio = True, b_quality = 85, b_out_fmt = ''jpeg''\<rparr>
      \<lparr>upload_filename = Some ''holiday.png'', upload_content = [80, 60]\<rparr>
      \<lparr>zs_entries = [], zs_count = 0, zs_events = []\<rparr>
   = (None, \<lparr>zs_entries = [(''holiday.jpg'', [80, 60])], zs_count = Suc 0,
        zs_events = [ReadUpload, DecodeImage]\<rparr>)"
  by (simp add: zip_step_def file_target_def process_bytes_def log_events_def Let_def
      validate_dims_def validate_dim_def demo_eval resize_image_def prepare_for_format_def
      save_image_def n1)


lemma z2: "zip_step demo_pil \<lparr>b_pct = None, b_fixed = None, b_w = None, b_h = None,
      b_keep_ratio = True, b_quality = 85, b_out_fmt = ''jpeg''\<rparr>
      \<lparr>upload_filename = Some ''empty.png'', upload_content = []\<rparr>
      \<lparr>zs_entries = [(''holiday.jpg'', [80, 60])], zs_count = Suc 0,
        zs_events = [ReadUpload, DecodeImage]\<rparr>
   = (None, \<lparr>zs_entries = [(''holiday.jpg'', [80, 60])], zs_count = Suc 0,
        zs_events = [ReadUpload, DecodeImage, ReadUpload]\<rparr>)"
  by (simp add: zip_step_def log_events_def)

lemma z3: "zip_step demo_pil \<lparr>b_pct = None, b_fixed = None, b_w = None, b_h = None,
      b_keep_ratio = True, b_quality = 85, b_out_fmt = ''jpeg''\<rparr>
      \<lparr>upload_filename = Some ''C:/tmp/holiday.gif'', upload_content = [100, 100]\<rparr>
      \<lparr>zs_entries = [(''holiday.jpg'', [80, 60])], zs_count = Suc 0,
        zs_events = [ReadUpload, DecodeImage, ReadUpload]\<rparr>
   = (None, \<lparr>zs_entries = [(''holiday.jpg'', [80, 60]), (''holiday_2.jpg'', [100, 100])],
        zs_count = Suc (Suc 0),
        zs_events = [ReadUpload, DecodeImage, ReadUpload, ReadUpload, DecodeImage]\<rparr>)"
  by (simp add: zip_step_def file_target_def process_bytes_def log_events_def Let_def
      validate_dims_def validate_dim_def demo_eval resize_image_def prepare_for_format_def
      save_image_def n2)

lemma zl: "zip_loop demo_pil \<lparr>b_pct = None, b_fixed = None, b_w = None, b_h = None,
      b_keep_ratio = True, b_quality = 85, b_out_fmt = ''jpeg''\<rparr>
      [\<lparr>upload_filename = Some ''holiday.png'', upload_content = [80, 60]\<rparr>,
       \<lparr>upload_filename = Some ''empty.png'', upload_content = []\<rparr>,
       \<lparr>upload_filename = Some ''C:/tmp/holiday.gif'', upload_content = [100, 100]\<rparr>]
      \<lparr>zs_entries = [], zs_count = 0, zs_events = []\<rparr>
   = (None, \<lparr>zs_entries = [(''holiday.jpg'', [80, 60]), (''holiday_2.jpg'', [100, 100])],
        zs_count = Suc (Suc 0),
        zs_events = [ReadUpload, DecodeImage, ReadUpload, ReadUpload, DecodeImage]\<rparr>)"
  by (simp add: z1 z2 z3)

lemma nf: "normalize_format ''jpg'' = ''jpeg''"
  by (simp add: normalize_format_def string_eval)

text \<open>
  Claim C4. In a batch that returns an archive, the entries are the uploads that are
  neither empty nor undecodable, in order. Take two of them, the \<open>i\<close>-th and the
  \<open>j\<close>-th written with \<open>i < j\<close> (counting from 0), whose sanitized file names have the
  same base name: their entry names differ, and the later one, colliding with a name
  already in the archive, is the base name, an underscore, its 1-based processing index
  \<open>j + 1\<close> and the extension of the output format.
\<close>

theorem archive_names_distinct:
  assumes "process_zip lib files width height preset keep_ratio quality out_format = (Inr resp, tr)"
  shows "\<exists>es. content resp = ZipArchive es
           \<and> length es = length (filter (\<lambda>f. \<not> unusable lib f) files)
           \<and> (\<forall>i j. i < j \<and> j < length es
                 \<and> base_name_of i (filter (\<lambda>f. \<not> unusable lib f) files ! i)
                     = base_name_of j (filter (\<lambda>f. \<not> unusable lib f) files ! j)
               \<longrightarrow> fst (es ! i) \<noteq> fst (es ! j)
                   \<and> fst (es ! j)
                       = base_name_of j (filter (\<lambda>f. \<not> unusable lib f) files ! j) @ ''_''
                           @ str_nat (j + 1) @ format_ext (normalize_format out_format))"
proof -
  define ks where "ks = filter (\<lambda>f. \<not> unusable lib f) files"
  define fmt where "fmt = normalize_format out_format"
  obtain pct fixed where pp: "parse_preset preset = (pct, fixed)" by (cases "parse_preset preset")
  define cfg where "cfg = \<lparr>b_pct = pct, b_fixed = fixed, b_w = parse_int width,
      b_h = parse_int height, b_keep_ratio = keep_ratio, b_quality = quality,
      b_out_fmt = fmt\<rparr>"
  define st0 where "st0 = \<lparr>zs_entries = [], zs_count = 0, zs_events = []\<rparr>"
  obtain r1 st1 where l: "zip_loop lib cfg files st0 = (r1, st1)"
    by (cases "zip_loop lib cfg files st0")
  have r: "r1 = None \<and> content resp = ZipArchive (zs_entries st1)"
    using assms pp l
    by (auto simp: process_zip_def Let_def cfg_def[symmetric] st0_def[symmetric] fmt_def[symmetric]
        split: if_splits option.splits)
  then have l': "zip_loop lib cfg files st0 = (None, st1)" using l by simp
  have "zs_count st0 = length (zs_entries st0)" "length (zs_entries st0) = length ([] :: upload list)"
    "\<forall>j<length ([] :: upload list). map fst (zs_entries st0) ! j
          = entry_name (b_out_fmt cfg) (take j (map fst (zs_entries st0))) j ([] ! j)"
    by (simp_all add: st0_def)
  note z = zip_loop_entries[OF l' this]
  have f0: "b_out_fmt cfg = fmt" by (simp add: cfg_def)
  have k0: "[] @ filter (\<lambda>f. \<not> unusable lib f) files = ks" by (simp add: ks_def)
  from z have
    len: "length (zs_entries st1) = length ks"
    and nm: "\<forall>j<length ks. map fst (zs_entries st1) ! j
            = entry_name fmt (take j (map fst (zs_entries st1))) j (ks ! j)"
    unfolding f0 k0 by blast+
  have "fst (zs_entries st1 ! i) \<noteq> fst (zs_entries st1 ! j)
      \<and> fst (zs_entries st1 ! j) = base_name_of j (ks ! j) @ ''_'' @ str_nat (j + 1) @ format_ext fmt"
    if "i < j" "j < length (zs_entries st1)" "base_name_of i (ks ! i) = base_name_of j (ks ! j)"
    for i j
  proof -
    have li: "i < length (zs_entries st1)" "j < length (zs_entries st1)" using that(1,2) by simp_all
    have l2: "length (map fst (zs_entries st1)) = length ks" using len by simp
    have jk: "j < length ks" using that(2) len by simp
    from names_distinct_same_base[OF nm l2 that(1) jk that(3)]
    show ?thesis unfolding nth_map[OF li(1)] nth_map[OF li(2)] .
  qed
  then show ?thesis using r len unfolding ks_def fmt_def by blast
qed

theorem archive_names_distinct_witness:
  "\<exists>resp tr. process_zip demo_pil
       [\<lparr>upload_filename = Some ''holiday.png'', upload_content = [80, 60]\<rparr>,
        \<lparr>upload_filename = Some ''empty.png'', upload_content = []\<rparr>,
        \<lparr>upload_filename = Some ''C:/tmp/holiday.gif'', upload_content = [100, 100]\<rparr>]
       None None None True 85 ''jpg'' = (Inr resp, tr)
     \<and> content resp = ZipArchive [(''holiday.jpg'', [80, 60]), (''holiday_2.jpg'', [100, 100])]"
proof -
  define resp0 where "resp0 = \<lparr>status_code = 200, media_type = ''application/zip'',
      headers = [(''Content-Disposition'',
        ''attachment; filename='' @ [CHR 0x22] @ ''processed_images.zip'' @ [CHR 0x22])],
      content = ZipArchive [(''holiday.jpg'', [80, 60]), (''holiday_2.jpg'', [100, 100])]\<rparr>"
  have p: "parse_int None = None" by (simp add: parse_int_def)
  have e: "process_zip demo_pil
       [\<lparr>upload_filename = Some ''holiday.png'', upload_content = [80, 60]\<rparr>,
        \<lparr>upload_filename = Some ''empty.png'', upload_content = []\<rparr>,
        \<lparr>upload_filename = Some ''C:/tmp/holiday.gif'', upload_content = [100, 100]\<rparr>]
       None None None True 85 ''jpg''
     = (Inr resp0, [ReadUpload, DecodeImage, ReadUpload, ReadUpload, DecodeImage])"
    unfolding process_zip_def nf parse_preset_None p Let_def prod.case zl resp0_def
    by simp
  from archive_names_distinct[OF e] obtain es where es: "content resp0 = ZipArchive es"
    by blast
  moreover have "content resp0 = ZipArchive [(''holiday.jpg'', [80, 60]), (''holiday_2.jpg'', [100, 100])]"
    by (simp add: resp0_def)
  ultimately have "es = [(''holiday.jpg'', [80, 60]), (''holiday_2.jpg'', [100, 100])]"
    by (simp only: body.inject)
  with es e show ?thesis by blast
qed

end
